theory Spec2Isabelle
  imports Main "HOL-Library.Word"
begin

section \<open>The data model of \<^verbatim>\<open>binary_search_tree.hpp\<close>\<close>

text \<open>
  \<^verbatim>\<open>BinaryNode\<close> holds a pair (\<^verbatim>\<open>data\<close>) and two owning pointers (\<^verbatim>\<open>left\<close>,
  \<^verbatim>\<open>right\<close>). Every node is owned by exactly one link, so a \<^verbatim>\<open>NodePointer\<close> is either
  \<^verbatim>\<open>nullptr\<close> or the node it points to together with the two subtrees hanging off it.
  The key type is a template parameter compared with \<^verbatim>\<open><\<close> and \<^verbatim>\<open>>\<close>; it is taken to be a
  linear order. \<^verbatim>\<open>SizeType\<close> is \<^verbatim>\<open>std::size_t\<close>, taken at its usual width of 64 bits:
  \<^verbatim>\<open>++\<close> and \<^verbatim>\<open>--\<close> wrap around.
\<close>

type_synonym SizeType = "64 word"

datatype ('k, 'v) NodePointer =
    nullptr
  | BinaryNode (data: "'k \<times> 'v") (left: "('k, 'v) NodePointer") (right: "('k, 'v) NodePointer")

record ('k, 'v) BinarySearchTree =
  m_Root :: "('k, 'v) NodePointer"
  m_Size :: SizeType


text \<open>
  \<^verbatim>\<open>p->data\<close> on a null pointer is undefined behaviour; the accessors that dereference
  without a check return \<open>None\<close> there.
\<close>

fun deref_data :: "('k, 'v) NodePointer \<Rightarrow> ('k \<times> 'v) option" where
  "deref_data nullptr = None"
| "deref_data (BinaryNode d l r) = Some d"

section \<open>Constructors and getters\<close>

definition BinarySearchTree_default :: "('k, 'v) BinarySearchTree" where
  "BinarySearchTree_default = \<lparr>m_Root = nullptr, m_Size = 0\<rparr>"

definition BinarySearchTree_init :: "'k \<times> 'v \<Rightarrow> ('k, 'v) BinarySearchTree" where
  "BinarySearchTree_init d = \<lparr>m_Root = BinaryNode d nullptr nullptr, m_Size = 1\<rparr>"

definition Root :: "('k, 'v) BinarySearchTree \<Rightarrow> ('k \<times> 'v) option" where
  "Root t = deref_data (m_Root t)"

definition Size :: "('k, 'v) BinarySearchTree \<Rightarrow> SizeType" where
  "Size t = m_Size t"

definition Empty :: "('k, 'v) BinarySearchTree \<Rightarrow> bool" where
  "Empty t = (m_Size t = 0)"

section \<open>Min, Max, Find\<close>

text \<open>
  The private \<^verbatim>\<open>Min\<close> and \<^verbatim>\<open>Max\<close> walk down one side while the child pointer is not
  null; the loop is the recursion on the child. The two overloads of the private
  \<^verbatim>\<open>Find\<close> have the same body. The public \<^verbatim>\<open>Find\<close>, \<^verbatim>\<open>Min\<close> and \<^verbatim>\<open>Max\<close> dereference
  the pointer they get back without a check.
\<close>

fun Min_node :: "('k, 'v) NodePointer \<Rightarrow> ('k, 'v) NodePointer" where
  "Min_node nullptr = nullptr"
| "Min_node (BinaryNode d l r) = (if l \<noteq> nullptr then Min_node l else BinaryNode d l r)"

fun Max_node :: "('k, 'v) NodePointer \<Rightarrow> ('k, 'v) NodePointer" where
  "Max_node nullptr = nullptr"
| "Max_node (BinaryNode d l r) = (if r \<noteq> nullptr then Max_node r else BinaryNode d l r)"

definition Min_bst :: "('k, 'v) BinarySearchTree \<Rightarrow> ('k \<times> 'v) option" where
  "Min_bst t = deref_data (Min_node (m_Root t))"

definition Max_bst :: "('k, 'v) BinarySearchTree \<Rightarrow> ('k \<times> 'v) option" where
  "Max_bst t = deref_data (Max_node (m_Root t))"

fun Find_node :: "'k::linorder \<Rightarrow> ('k, 'v) NodePointer \<Rightarrow> ('k, 'v) NodePointer" where
  "Find_node key nullptr = nullptr"
| "Find_node key (BinaryNode d l r) =
     (if key < fst d then Find_node key l
      else if key > fst d then Find_node key r
      else BinaryNode d l r)"

definition Contains :: "'k::linorder \<Rightarrow> ('k, 'v) BinarySearchTree \<Rightarrow> bool" where
  "Contains key t = (Find_node key (m_Root t) \<noteq> nullptr)"

definition Find :: "'k::linorder \<Rightarrow> ('k, 'v) BinarySearchTree \<Rightarrow> 'v option" where
  "Find key t = map_option snd (deref_data (Find_node key (m_Root t)))"

section \<open>Copy and Clear\<close>

text \<open>Allocation is taken to succeed here; its failure is the subject of a later section.\<close>

fun Copy :: "('k, 'v) NodePointer \<Rightarrow> ('k, 'v) NodePointer" where
  "Copy nullptr = nullptr"
| "Copy (BinaryNode d l r) = BinaryNode d (Copy l) (Copy r)"

text \<open>
  The private \<^verbatim>\<open>Clear\<close> takes the pointer by reference; the result is the pointer's value
  when the call returns.
\<close>

fun Clear_node :: "('k, 'v) NodePointer \<Rightarrow> ('k, 'v) NodePointer" where
  "Clear_node nullptr = nullptr"
| "Clear_node (BinaryNode d l r) =
     (let l' = (if l \<noteq> nullptr then Clear_node l else l);
          r' = (if r \<noteq> nullptr then Clear_node r else r)
      in nullptr)"

definition Clear :: "('k, 'v) BinarySearchTree \<Rightarrow> ('k, 'v) BinarySearchTree" where
  "Clear t = (let t1 = t\<lparr>m_Root := Clear_node (m_Root t)\<rparr> in t1\<lparr>m_Size := 0\<rparr>)"

section \<open>Insert\<close>

text \<open>
  The private \<^verbatim>\<open>Insert\<close> writes through the reference \<^verbatim>\<open>node\<close> and increments the member
  \<^verbatim>\<open>m_Size\<close>: the function takes both and returns both. The overload for an rvalue pair
  has the same body.
\<close>

fun Insert_node ::
  "'k::linorder \<times> 'v \<Rightarrow> ('k, 'v) NodePointer \<Rightarrow> SizeType \<Rightarrow> ('k, 'v) NodePointer \<times> SizeType"
where
  "Insert_node d nullptr sz = (BinaryNode d nullptr nullptr, sz + 1)"
| "Insert_node d (BinaryNode nd l r) sz =
     (if fst d < fst nd then
        (case Insert_node d l sz of (l', sz') \<Rightarrow> (BinaryNode nd l' r, sz'))
      else if fst d > fst nd then
        (case Insert_node d r sz of (r', sz') \<Rightarrow> (BinaryNode nd l r', sz'))
      else (BinaryNode nd l r, sz))"

definition Insert ::
  "'k::linorder \<times> 'v \<Rightarrow> ('k, 'v) BinarySearchTree \<Rightarrow> ('k, 'v) BinarySearchTree"
where
  "Insert d t =
     (case Insert_node d (m_Root t) (m_Size t) of (n, sz) \<Rightarrow> \<lparr>m_Root = n, m_Size = sz\<rparr>)"

section \<open>Erase\<close>

text \<open>
  In the two-children branch the nested call receives \<^verbatim>\<open>node->data.first\<close> by reference;
  nothing writes that field while the call runs, so the key is passed as a value.
  \<^verbatim>\<open>Min(node->right)->data\<close> is read where \<^verbatim>\<open>node->right\<close> is not null.
\<close>

fun Erase_node ::
  "'k::linorder \<Rightarrow> ('k, 'v) NodePointer \<Rightarrow> SizeType \<Rightarrow> ('k, 'v) NodePointer \<times> SizeType"
where
  "Erase_node key nullptr sz = (nullptr, sz)"
| "Erase_node key (BinaryNode d l r) sz =
     (if key < fst d then
        (case Erase_node key l sz of (l', sz') \<Rightarrow> (BinaryNode d l' r, sz'))
      else if key > fst d then
        (case Erase_node key r sz of (r', sz') \<Rightarrow> (BinaryNode d l r', sz'))
      else if l \<noteq> nullptr \<and> r \<noteq> nullptr then
        (let d' = data (Min_node r)
         in case Erase_node (fst d') r sz of (r', sz') \<Rightarrow> (BinaryNode d' l r', sz'))
      else ((if l \<noteq> nullptr then l else r), sz - 1))"

definition Erase ::
  "'k::linorder \<Rightarrow> ('k, 'v) BinarySearchTree \<Rightarrow> ('k, 'v) BinarySearchTree"
where
  "Erase key t =
     (case Erase_node key (m_Root t) (m_Size t) of (n, sz) \<Rightarrow> \<lparr>m_Root = n, m_Size = sz\<rparr>)"

section \<open>Traversals and the invariants\<close>

fun inorder :: "('k, 'v) NodePointer \<Rightarrow> ('k \<times> 'v) list" where
  "inorder nullptr = []"
| "inorder (BinaryNode d l r) = inorder l @ d # inorder r"

definition keys :: "('k, 'v) NodePointer \<Rightarrow> 'k list" where
  "keys n = map fst (inorder n)"

fun key_set :: "('k, 'v) NodePointer \<Rightarrow> 'k set" where
  "key_set nullptr = {}"
| "key_set (BinaryNode d l r) = key_set l \<union> {fst d} \<union> key_set r"

fun num_nodes :: "('k, 'v) NodePointer \<Rightarrow> nat" where
  "num_nodes nullptr = 0"
| "num_nodes (BinaryNode d l r) = num_nodes l + 1 + num_nodes r"

fun bst_ordered :: "('k::linorder, 'v) NodePointer \<Rightarrow> bool" where
  "bst_ordered nullptr = True"
| "bst_ordered (BinaryNode d l r) =
     ((\<forall>x \<in> key_set l. x < fst d) \<and> (\<forall>x \<in> key_set r. fst d < x) \<and>
      bst_ordered l \<and> bst_ordered r)"

section \<open>Sequences of Insert and Erase on one tree\<close>

datatype ('k, 'v) operation = OpInsert "'k \<times> 'v" | OpErase 'k

fun apply_operation ::
  "('k::linorder, 'v) operation \<Rightarrow> ('k, 'v) BinarySearchTree \<Rightarrow> ('k, 'v) BinarySearchTree"
where
  "apply_operation (OpInsert d) t = Insert d t"
| "apply_operation (OpErase k) t = Erase k t"

fun run ::
  "('k::linorder, 'v) operation list \<Rightarrow> ('k, 'v) BinarySearchTree \<Rightarrow> ('k, 'v) BinarySearchTree"
where
  "run [] t = t"
| "run (op # ops) t = run ops (apply_operation op t)"

fun operation_key :: "('k, 'v) operation \<Rightarrow> 'k" where
  "operation_key (OpInsert d) = fst d"
| "operation_key (OpErase k) = k"

section \<open>Positions in a tree\<close>

text \<open>
  The turns \<^verbatim>\<open>Find\<close> takes from a node until it stops, and the subtree a sequence of
  turns leads to; they name the position of the node that \<^verbatim>\<open>Find\<close> returns.
\<close>

datatype turn = GoLeft | GoRight

fun Find_path :: "'k::linorder \<Rightarrow> ('k, 'v) NodePointer \<Rightarrow> turn list" where
  "Find_path key nullptr = []"
| "Find_path key (BinaryNode d l r) =
     (if key < fst d then GoLeft # Find_path key l
      else if key > fst d then GoRight # Find_path key r
      else [])"

fun subtree_at :: "turn list \<Rightarrow> ('k, 'v) NodePointer \<Rightarrow> ('k, 'v) NodePointer" where
  "subtree_at [] n = n"
| "subtree_at (c # cs) nullptr = nullptr"
| "subtree_at (GoLeft # cs) (BinaryNode d l r) = subtree_at cs l"
| "subtree_at (GoRight # cs) (BinaryNode d l r) = subtree_at cs r"

section \<open>Counting the calls that change the tree\<close>

fun successful_inserts ::
  "('k::linorder, 'v) operation list \<Rightarrow> ('k, 'v) BinarySearchTree \<Rightarrow> nat"
where
  "successful_inserts [] t = 0"
| "successful_inserts (OpInsert d # ops) t =
     (if Contains (fst d) t then 0 else 1) + successful_inserts ops (Insert d t)"
| "successful_inserts (OpErase k # ops) t = successful_inserts ops (Erase k t)"

fun successful_erases ::
  "('k::linorder, 'v) operation list \<Rightarrow> ('k, 'v) BinarySearchTree \<Rightarrow> nat"
where
  "successful_erases [] t = 0"
| "successful_erases (OpInsert d # ops) t = successful_erases ops (Insert d t)"
| "successful_erases (OpErase k # ops) t =
     (if Contains k t then 1 else 0) + successful_erases ops (Erase k t)"

section \<open>Several tree objects: copy and move\<close>

text \<open>
  Copy and move involve two objects, and the assignment operators compare their
  addresses. A store maps the address of each tree object to its member data; an
  address that no constructor has run on holds the members of a default-constructed tree.
  Allocation is taken to succeed in this section.
\<close>

type_synonym addr = nat

type_synonym ('k, 'v) store = "addr \<Rightarrow> ('k, 'v) BinarySearchTree"

definition BinarySearchTree_copy ::
  "addr \<Rightarrow> addr \<Rightarrow> ('k, 'v) store \<Rightarrow> ('k, 'v) store"
where
  "BinarySearchTree_copy this other s =
     s(this := \<lparr>m_Root = Copy (m_Root (s other)), m_Size = m_Size (s other)\<rparr>)"

definition BinarySearchTree_move ::
  "addr \<Rightarrow> addr \<Rightarrow> ('k, 'v) store \<Rightarrow> ('k, 'v) store"
where
  "BinarySearchTree_move this other s =
     (let s1 = s(this := \<lparr>m_Root = m_Root (s other), m_Size = m_Size (s other)\<rparr>);
          s2 = s1(other := (s1 other)\<lparr>m_Root := nullptr\<rparr>)
      in s2(other := (s2 other)\<lparr>m_Size := 0\<rparr>))"

definition assign_copy ::
  "addr \<Rightarrow> addr \<Rightarrow> ('k, 'v) store \<Rightarrow> ('k, 'v) store"
where
  "assign_copy this other s =
     (if this = other then s
      else
        let s1 = s(this := Clear (s this));
            s2 = s1(this := (s1 this)\<lparr>m_Root := Copy (m_Root (s1 other))\<rparr>)
        in s2(this := (s2 this)\<lparr>m_Size := m_Size (s2 other)\<rparr>))"

definition assign_move ::
  "addr \<Rightarrow> addr \<Rightarrow> ('k, 'v) store \<Rightarrow> ('k, 'v) store"
where
  "assign_move this other s =
     (if this = other then s
      else
        let s1 = s(this := Clear (s this));
            s2 = s1(this := (s1 this)\<lparr>m_Root := m_Root (s1 other)\<rparr>);
            s3 = s2(this := (s2 this)\<lparr>m_Size := m_Size (s2 other)\<rparr>);
            s4 = s3(other := (s3 other)\<lparr>m_Root := nullptr\<rparr>)
        in s4(other := (s4 other)\<lparr>m_Size := 0\<rparr>))"

definition initial_store :: "('k, 'v) store" where
  "initial_store = (\<lambda>a. BinarySearchTree_default)"

section \<open>LevelByLevel\<close>

text \<open>
  The queue holds node pointers, with \<^verbatim>\<open>nullptr\<close> as the level delimiter. The stream is
  the text written so far, and \<open>fmt\<close> is what \<^verbatim>\<open><<\<close> writes for a value. The loop has no
  bound of its own: a run that never leaves it has the result \<open>None\<close>, and so has
  \<^verbatim>\<open>q.front()\<close> on an empty queue.
\<close>

partial_function (option) LevelByLevel_loop ::
  "('v \<Rightarrow> string) \<Rightarrow> ('k, 'v) NodePointer list \<Rightarrow> string \<Rightarrow> string option"
where
  "LevelByLevel_loop fmt q out =
     (case q of
        [] \<Rightarrow> None
      | front # q1 \<Rightarrow>
          (case front of
             nullptr \<Rightarrow>
               (let out1 = out @ [CHR 0x0A]
                in if q1 = [] then Some out1 else LevelByLevel_loop fmt (q1 @ [nullptr]) out1)
           | BinaryNode d l r \<Rightarrow>
               (let out1 = out @ fmt (snd d) @ [CHR '' ''];
                    q2 = (if l \<noteq> nullptr then q1 @ [l] else q1);
                    q3 = (if r \<noteq> nullptr then q2 @ [r] else q2)
                in LevelByLevel_loop fmt q3 out1)))"

definition LevelByLevel ::
  "('v \<Rightarrow> string) \<Rightarrow> ('k, 'v) BinarySearchTree \<Rightarrow> string \<Rightarrow> string option"
where
  "LevelByLevel fmt t out =
     (if m_Root t = nullptr then Some out
      else LevelByLevel_loop fmt [m_Root t, nullptr] out)"

text \<open>
  What the traversal is meant to write, stated by depth: the values at depth \<open>n\<close> from
  left to right, one line per depth, a space after each value.
\<close>

fun values_at_depth :: "nat \<Rightarrow> ('k, 'v) NodePointer \<Rightarrow> 'v list" where
  "values_at_depth n nullptr = []"
| "values_at_depth 0 (BinaryNode d l r) = [snd d]"
| "values_at_depth (Suc n) (BinaryNode d l r) = values_at_depth n l @ values_at_depth n r"

fun height :: "('k, 'v) NodePointer \<Rightarrow> nat" where
  "height nullptr = 0"
| "height (BinaryNode d l r) = Suc (max (height l) (height r))"

definition level_line :: "('v \<Rightarrow> string) \<Rightarrow> 'v list \<Rightarrow> string" where
  "level_line fmt vs = concat (map (\<lambda>v. fmt v @ [CHR '' '']) vs) @ [CHR 0x0A]"

definition lines_by_depth :: "('v \<Rightarrow> string) \<Rightarrow> ('k, 'v) NodePointer \<Rightarrow> string" where
  "lines_by_depth fmt n =
     concat (map (\<lambda>i. level_line fmt (values_at_depth i n)) [0 ..< height n])"

text \<open>The same by depth for the nodes of a whole queue, and the nodes they enqueue.\<close>

fun children :: "('k, 'v) NodePointer \<Rightarrow> ('k, 'v) NodePointer list" where
  "children nullptr = []"
| "children (BinaryNode d l r) =
     (if l \<noteq> nullptr then [l] else []) @ (if r \<noteq> nullptr then [r] else [])"

definition forest_values :: "nat \<Rightarrow> ('k, 'v) NodePointer list \<Rightarrow> 'v list" where
  "forest_values i ns = concat (map (values_at_depth i) ns)"

fun forest_height :: "('k, 'v) NodePointer list \<Rightarrow> nat" where
  "forest_height [] = 0"
| "forest_height (n # ns) = max (height n) (forest_height ns)"

section \<open>Allocation failure\<close>

text \<open>
  \<^verbatim>\<open>new BinaryNode(...)\<close> throws \<^verbatim>\<open>std::bad_alloc\<close> when the allocator cannot provide a
  node, and nothing in the class catches it. The allocator is a number, how many more
  nodes it can provide; \<^verbatim>\<open>delete\<close> gives a node back. A call either returns or throws, and
  either way it leaves the members it has written behind.
\<close>

datatype 's outcome = Returns 's | Throws 's

text \<open>\<^verbatim>\<open>Insert\<close> increments \<^verbatim>\<open>m_Size\<close> and then allocates; it allocates at most once.\<close>

fun Insert_node_alloc ::
  "nat \<Rightarrow> 'k::linorder \<times> 'v \<Rightarrow> ('k, 'v) NodePointer \<Rightarrow> SizeType
     \<Rightarrow> (('k, 'v) NodePointer \<times> SizeType) outcome"
where
  "Insert_node_alloc heap d nullptr sz =
     (let sz1 = sz + 1
      in if heap = 0 then Throws (nullptr, sz1)
         else Returns (BinaryNode d nullptr nullptr, sz1))"
| "Insert_node_alloc heap d (BinaryNode nd l r) sz =
     (if fst d < fst nd then
        (case Insert_node_alloc heap d l sz of
           Returns (l', sz') \<Rightarrow> Returns (BinaryNode nd l' r, sz')
         | Throws (l', sz') \<Rightarrow> Throws (BinaryNode nd l' r, sz'))
      else if fst d > fst nd then
        (case Insert_node_alloc heap d r sz of
           Returns (r', sz') \<Rightarrow> Returns (BinaryNode nd l r', sz')
         | Throws (r', sz') \<Rightarrow> Throws (BinaryNode nd l r', sz'))
      else Returns (BinaryNode nd l r, sz))"

definition Insert_alloc ::
  "nat \<Rightarrow> 'k::linorder \<times> 'v \<Rightarrow> ('k, 'v) BinarySearchTree
     \<Rightarrow> ('k, 'v) BinarySearchTree outcome"
where
  "Insert_alloc heap d t =
     (case Insert_node_alloc heap d (m_Root t) (m_Size t) of
        Returns (n, sz) \<Rightarrow> Returns \<lparr>m_Root = n, m_Size = sz\<rparr>
      | Throws (n, sz) \<Rightarrow> Throws \<lparr>m_Root = n, m_Size = sz\<rparr>)"

text \<open>
  \<^verbatim>\<open>Copy\<close> writes no member; when it throws, the nodes it has built are lost and the
  result is \<open>None\<close>. Otherwise it returns the copy and what is left of the allocator.
\<close>

fun Copy_alloc :: "nat \<Rightarrow> ('k, 'v) NodePointer \<Rightarrow> (('k, 'v) NodePointer \<times> nat) option" where
  "Copy_alloc heap nullptr = Some (nullptr, heap)"
| "Copy_alloc heap (BinaryNode d l r) =
     (case heap of
        0 \<Rightarrow> None
      | Suc h1 \<Rightarrow>
          (case Copy_alloc h1 l of
             None \<Rightarrow> None
           | Some (l', h2) \<Rightarrow>
               (case Copy_alloc h2 r of
                  None \<Rightarrow> None
                | Some (r', h3) \<Rightarrow> Some (BinaryNode d l' r', h3))))"

definition assign_copy_alloc ::
  "nat \<Rightarrow> addr \<Rightarrow> addr \<Rightarrow> ('k, 'v) store \<Rightarrow> ('k, 'v) store outcome"
where
  "assign_copy_alloc heap this other s =
     (if this = other then Returns s
      else
        let heap1 = heap + num_nodes (m_Root (s this));
            s1 = s(this := Clear (s this))
        in case Copy_alloc heap1 (m_Root (s1 other)) of
             None \<Rightarrow> Throws s1
           | Some (n, heap2) \<Rightarrow>
               (let s2 = s1(this := (s1 this)\<lparr>m_Root := n\<rparr>)
                in Returns (s2(this := (s2 this)\<lparr>m_Size := m_Size (s2 other)\<rparr>))))"

text \<open>
  The two allocating constructors. A constructor that throws constructs nothing: the
  store is as it was.
\<close>

definition BinarySearchTree_init_alloc ::
  "nat \<Rightarrow> addr \<Rightarrow> 'k \<times> 'v \<Rightarrow> ('k, 'v) store \<Rightarrow> ('k, 'v) store outcome"
where
  "BinarySearchTree_init_alloc heap this d s =
     (if heap = 0 then Throws s
      else Returns (s(this := \<lparr>m_Root = BinaryNode d nullptr nullptr, m_Size = 1\<rparr>)))"

definition BinarySearchTree_copy_alloc ::
  "nat \<Rightarrow> addr \<Rightarrow> addr \<Rightarrow> ('k, 'v) store \<Rightarrow> ('k, 'v) store outcome"
where
  "BinarySearchTree_copy_alloc heap this other s =
     (case Copy_alloc heap (m_Root (s other)) of
        None \<Rightarrow> Throws s
      | Some (n, heap1) \<Rightarrow> Returns (s(this := \<lparr>m_Root = n, m_Size = m_Size (s other)\<rparr>)))"

section \<open>Sequences of calls on several objects\<close>

text \<open>
  A program calls the public operations one after the other. Each allocating call comes
  with the number of nodes the allocator can provide while it runs, so that every
  pattern of failures is some sequence. A caller that catches \<^verbatim>\<open>std::bad_alloc\<close> goes on
  with the objects as the failed call left them.
\<close>

fun state_of :: "'s outcome \<Rightarrow> 's" where
  "state_of (Returns s) = s"
| "state_of (Throws s) = s"

datatype ('k, 'v) call =
    CallDefault addr
  | CallInit addr "'k \<times> 'v" nat
  | CallCopy addr addr nat
  | CallMove addr addr
  | CallAssignCopy addr addr nat
  | CallAssignMove addr addr
  | CallClear addr
  | CallInsert addr "'k \<times> 'v" nat
  | CallErase addr 'k

fun exec :: "('k::linorder, 'v) call \<Rightarrow> ('k, 'v) store \<Rightarrow> ('k, 'v) store" where
  "exec (CallDefault a) s = s(a := BinarySearchTree_default)"
| "exec (CallInit a d heap) s = state_of (BinarySearchTree_init_alloc heap a d s)"
| "exec (CallCopy a b heap) s = state_of (BinarySearchTree_copy_alloc heap a b s)"
| "exec (CallMove a b) s = BinarySearchTree_move a b s"
| "exec (CallAssignCopy a b heap) s = state_of (assign_copy_alloc heap a b s)"
| "exec (CallAssignMove a b) s = assign_move a b s"
| "exec (CallClear a) s = s(a := Clear (s a))"
| "exec (CallInsert a d heap) s = s(a := state_of (Insert_alloc heap d (s a)))"
| "exec (CallErase a k) s = s(a := Erase k (s a))"

fun execs :: "('k::linorder, 'v) call list \<Rightarrow> ('k, 'v) store \<Rightarrow> ('k, 'v) store" where
  "execs [] s = s"
| "execs (c # cs) s = execs cs (exec c s)"

text \<open>Whether a call is an \<^verbatim>\<open>Insert\<close> that throws, and whether a sequence has none.\<close>

fun insert_throws :: "('k::linorder, 'v) call \<Rightarrow> ('k, 'v) store \<Rightarrow> bool" where
  "insert_throws (CallInsert a d heap) s = (heap = 0 \<and> \<not> Contains (fst d) (s a))"
| "insert_throws c s = False"

fun no_insert_throws :: "('k::linorder, 'v) call list \<Rightarrow> ('k, 'v) store \<Rightarrow> bool" where
  "no_insert_throws [] s = True"
| "no_insert_throws (c # cs) s = (\<not> insert_throws c s \<and> no_insert_throws cs (exec c s))"

section \<open>Well-formed trees and a worked example\<close>

definition wf_tree :: "('k::linorder, 'v) BinarySearchTree \<Rightarrow> bool" where
  "wf_tree t = (bst_ordered (m_Root t) \<and> m_Size t = of_nat (num_nodes (m_Root t)))"

definition wf_store :: "('k::linorder, 'v) store \<Rightarrow> bool" where
  "wf_store s = (\<forall>a. wf_tree (s a))"

text \<open>The tree built by inserting the keys 5, 3, 8, 1, 4, 7, 9 in that order.\<close>

definition example_tree :: "(int, string) BinarySearchTree" where
  "example_tree =
     run [OpInsert (5, ''five''), OpInsert (3, ''three''), OpInsert (8, ''eight''),
          OpInsert (1, ''one''), OpInsert (4, ''four''), OpInsert (7, ''seven''),
          OpInsert (9, ''nine'')] BinarySearchTree_default"

definition example_store :: "(int, string) store" where
  "example_store = initial_store(0 := example_tree, 1 := BinarySearchTree_init (2, ''two''))"

section \<open>Keys and ordering\<close>

lemma set_keys: "set (keys n) = key_set n"
  by (induction n) (auto simp: keys_def)

lemma bst_ordered_iff_sorted: "bst_ordered n \<longleftrightarrow> sorted_wrt (<) (keys n)"
proof (induction n)
  case nullptr
  show ?case by (simp add: keys_def)
next
  case (BinaryNode d l r)
  have kl: "set (map fst (inorder l)) = key_set l" and kr: "set (map fst (inorder r)) = key_set r"
    using set_keys [of l] set_keys [of r] by (simp_all add: keys_def)
  show ?case
    using BinaryNode kl kr
    by (auto simp add: keys_def sorted_wrt_append) (meson less_trans)
qed

lemma key_set_Insert_node:
  "key_set (fst (Insert_node d n sz)) = insert (fst d) (key_set n)"
  by (induction n arbitrary: sz) (auto simp: case_prod_beta)

lemma bst_ordered_Insert_node:
  "bst_ordered n \<Longrightarrow> bst_ordered (fst (Insert_node d n sz))"
proof (induction n arbitrary: sz)
  case nullptr
  show ?case by simp
next
  case (BinaryNode nd l r)
  show ?case
  proof (cases "fst d < fst nd")
    case True
    have "key_set (fst (Insert_node d l sz)) = insert (fst d) (key_set l)"
      by (rule key_set_Insert_node)
    with True BinaryNode show ?thesis by (auto simp: case_prod_beta)
  next
    case False
    have "key_set (fst (Insert_node d r sz)) = insert (fst d) (key_set r)"
      by (rule key_set_Insert_node)
    with False BinaryNode show ?thesis by (auto simp: case_prod_beta)
  qed
qed

lemma Min_node_shape:
  "n \<noteq> nullptr \<Longrightarrow> \<exists>d r. Min_node n = BinaryNode d nullptr r"
  by (induction n) auto

lemma Min_node_key_in: "n \<noteq> nullptr \<Longrightarrow> fst (data (Min_node n)) \<in> key_set n"
  by (induction n) auto

lemma Min_node_least:
  "bst_ordered n \<Longrightarrow> x \<in> key_set n \<Longrightarrow> fst (data (Min_node n)) \<le> x"
proof (induction n)
  case nullptr
  then show ?case by simp
next
  case (BinaryNode d l r)
  show ?case
  proof (cases "l = nullptr")
    case True
    with BinaryNode.prems show ?thesis by auto
  next
    case False
    then have m: "fst (data (Min_node l)) \<in> key_set l" by (rule Min_node_key_in)
    with BinaryNode.prems have "fst (data (Min_node l)) < fst d" by simp
    have "fst (data (Min_node l)) \<le> x"
    proof (cases "x \<in> key_set l")
      case True
      with BinaryNode show ?thesis by simp
    next
      case False
      with BinaryNode.prems have "fst d \<le> x" by auto
      with \<open>fst (data (Min_node l)) < fst d\<close> show ?thesis by simp
    qed
    with False show ?thesis by simp
  qed
qed

lemma key_set_Erase_node:
  "bst_ordered n \<Longrightarrow> key_set (fst (Erase_node k n sz)) = key_set n - {k}"
proof (induction k n sz rule: Erase_node.induct)
  case (1 key sz)
  show ?case by simp
next
  case (2 key d l r sz)
  from "2.prems" have ol: "bst_ordered l" and or: "bst_ordered r"
    and lt: "\<forall>x \<in> key_set l. x < fst d" and gt: "\<forall>x \<in> key_set r. fst d < x" by simp_all
  consider (less) "key < fst d" | (greater) "fst d < key"
    | (two) "key = fst d" "l \<noteq> nullptr \<and> r \<noteq> nullptr"
    | (one) "key = fst d" "\<not> (l \<noteq> nullptr \<and> r \<noteq> nullptr)"
    by (metis less_linear)
  then show ?case
  proof cases
    case less
    with "2.IH"(1) ol lt gt show ?thesis by (auto simp: case_prod_beta)
  next
    case greater
    with "2.IH"(2) or lt gt show ?thesis by (auto simp: case_prod_beta)
  next
    case two
    let ?m = "fst (data (Min_node r))"
    have ih: "key_set (fst (Erase_node ?m r sz)) = key_set r - {?m}"
      using "2.IH"(3) two or by simp
    have "?m \<in> key_set r" using two by (simp add: Min_node_key_in)
    with ih two lt gt show ?thesis by (auto simp: Let_def case_prod_beta)
  next
    case one
    with lt gt show ?thesis by auto
  qed
qed

lemma bst_ordered_Erase_node:
  "bst_ordered n \<Longrightarrow> bst_ordered (fst (Erase_node k n sz))"
proof (induction k n sz rule: Erase_node.induct)
  case (1 key sz)
  show ?case by simp
next
  case (2 key d l r sz)
  from "2.prems" have ol: "bst_ordered l" and or: "bst_ordered r"
    and lt: "\<forall>x \<in> key_set l. x < fst d" and gt: "\<forall>x \<in> key_set r. fst d < x" by simp_all
  consider (less) "key < fst d" | (greater) "fst d < key"
    | (two) "key = fst d" "l \<noteq> nullptr \<and> r \<noteq> nullptr"
    | (one) "key = fst d" "\<not> (l \<noteq> nullptr \<and> r \<noteq> nullptr)"
    by (metis less_linear)
  then show ?case
  proof cases
    case less
    have "key_set (fst (Erase_node key l sz)) = key_set l - {key}"
      using ol by (rule key_set_Erase_node)
    with less "2.IH"(1) ol or lt gt show ?thesis by (auto simp: case_prod_beta)
  next
    case greater
    have "key_set (fst (Erase_node key r sz)) = key_set r - {key}"
      using or by (rule key_set_Erase_node)
    with greater "2.IH"(2) ol or lt gt show ?thesis by (auto simp: case_prod_beta)
  next
    case two
    let ?m = "fst (data (Min_node r))"
    have ks: "key_set (fst (Erase_node ?m r sz)) = key_set r - {?m}"
      using or by (rule key_set_Erase_node)
    have ih: "bst_ordered (fst (Erase_node ?m r sz))"
      using "2.IH"(3) two or by simp
    have min: "?m \<in> key_set r" using two by (simp add: Min_node_key_in)
    have least: "\<forall>x \<in> key_set r. ?m \<le> x" using or by (simp add: Min_node_least)
    have "\<forall>x \<in> key_set l. x < ?m" using lt gt min by (meson less_trans)
    moreover have "\<forall>x \<in> key_set r - {?m}. ?m < x" using least by auto
    ultimately show ?thesis using two ih ks ol by (auto simp: Let_def case_prod_beta)
  next
    case one
    with ol or show ?thesis by auto
  qed
qed

lemma m_Root_Insert: "m_Root (Insert d t) = fst (Insert_node d (m_Root t) (m_Size t))"
  by (simp add: Insert_def case_prod_beta)

lemma m_Size_Insert: "m_Size (Insert d t) = snd (Insert_node d (m_Root t) (m_Size t))"
  by (simp add: Insert_def case_prod_beta)

lemma m_Root_Erase: "m_Root (Erase k t) = fst (Erase_node k (m_Root t) (m_Size t))"
  by (simp add: Erase_def case_prod_beta)

lemma m_Size_Erase: "m_Size (Erase k t) = snd (Erase_node k (m_Root t) (m_Size t))"
  by (simp add: Erase_def case_prod_beta)

lemma bst_ordered_apply_operation:
  "bst_ordered (m_Root t) \<Longrightarrow> bst_ordered (m_Root (apply_operation op t))"
  by (cases op) (simp_all add: m_Root_Insert m_Root_Erase bst_ordered_Insert_node bst_ordered_Erase_node)

lemma bst_ordered_run:
  "bst_ordered (m_Root t) \<Longrightarrow> bst_ordered (m_Root (run ops t))"
  by (induction ops arbitrary: t) (simp_all add: bst_ordered_apply_operation)

lemma strict_sorted_distinct: "sorted_wrt (<) (xs :: 'a::linorder list) \<Longrightarrow> distinct xs"
  by (induction xs) auto

section \<open>Presence, size and the two operations\<close>

lemma Find_node_key: "Find_node k n \<noteq> nullptr \<Longrightarrow> fst (data (Find_node k n)) = k"
  by (induction n) (auto split: if_splits)

lemma Find_node_absent: "k \<notin> key_set n \<Longrightarrow> Find_node k n = nullptr"
  by (induction n) auto

lemma Find_node_present:
  "bst_ordered n \<Longrightarrow> k \<in> key_set n \<Longrightarrow> Find_node k n \<noteq> nullptr"
  by (induction n) (auto dest: less_asym)

lemma Find_node_iff: "bst_ordered n \<Longrightarrow> Find_node k n \<noteq> nullptr \<longleftrightarrow> k \<in> key_set n"
  using Find_node_absent Find_node_present by blast

lemma Insert_node_present:
  "Find_node (fst d) n \<noteq> nullptr \<Longrightarrow> Insert_node d n sz = (n, sz)"
  by (induction n) (auto split: if_splits)

lemma Insert_node_size:
  "snd (Insert_node d n sz) = (if Find_node (fst d) n = nullptr then sz + 1 else sz)"
  by (induction n) (auto simp: case_prod_beta)

lemma num_nodes_Insert_node:
  "num_nodes (fst (Insert_node d n sz)) =
     (if Find_node (fst d) n = nullptr then num_nodes n + 1 else num_nodes n)"
  by (induction n) (auto simp: case_prod_beta)

lemma Erase_node_absent:
  "Find_node k n = nullptr \<Longrightarrow> Erase_node k n sz = (n, sz)"
  by (induction n) (auto split: if_splits)

lemma Find_node_Min:
  "bst_ordered n \<Longrightarrow> n \<noteq> nullptr \<Longrightarrow> Find_node (fst (data (Min_node n))) n \<noteq> nullptr"
  by (simp add: Find_node_iff Min_node_key_in)

lemma Erase_node_size:
  "bst_ordered n \<Longrightarrow> Find_node k n \<noteq> nullptr \<Longrightarrow> snd (Erase_node k n sz) = sz - 1"
proof (induction k n sz rule: Erase_node.induct)
  case (1 key sz)
  then show ?case by simp
next
  case (2 key d l r sz)
  show ?case
  proof (cases "l \<noteq> nullptr \<and> r \<noteq> nullptr \<and> \<not> key < fst d \<and> \<not> fst d < key")
    case True
    with "2.prems" have "Find_node (fst (data (Min_node r))) r \<noteq> nullptr"
      by (simp add: Find_node_Min)
    with True "2.IH"(3) "2.prems" show ?thesis by (simp add: Let_def case_prod_beta)
  next
    case False
    with 2 show ?thesis by (auto simp: case_prod_beta split: if_splits)
  qed
qed

lemma num_nodes_Erase_node:
  "bst_ordered n \<Longrightarrow> Find_node k n \<noteq> nullptr \<Longrightarrow>
     num_nodes (fst (Erase_node k n sz)) + 1 = num_nodes n"
proof (induction k n sz rule: Erase_node.induct)
  case (1 key sz)
  then show ?case by simp
next
  case (2 key d l r sz)
  show ?case
  proof (cases "l \<noteq> nullptr \<and> r \<noteq> nullptr \<and> \<not> key < fst d \<and> \<not> fst d < key")
    case True
    with "2.prems" have "Find_node (fst (data (Min_node r))) r \<noteq> nullptr"
      by (simp add: Find_node_Min)
    with True "2.IH"(3) "2.prems" show ?thesis by (simp add: Let_def case_prod_beta)
  next
    case False
    with 2 show ?thesis by (auto simp: case_prod_beta split: if_splits)
  qed
qed

section \<open>Lookups after Insert and Erase\<close>

lemma Find_node_Min_data:
  "bst_ordered n \<Longrightarrow> n \<noteq> nullptr \<Longrightarrow>
     deref_data (Find_node (fst (data (Min_node n))) n) = Some (data (Min_node n))"
proof (induction n)
  case nullptr
  then show ?case by simp
next
  case (BinaryNode d l r)
  show ?case
  proof (cases "l = nullptr")
    case True
    then show ?thesis by simp
  next
    case False
    then have "fst (data (Min_node l)) \<in> key_set l" by (rule Min_node_key_in)
    with BinaryNode.prems have "fst (data (Min_node l)) < fst d" by simp
    with False BinaryNode show ?thesis by simp
  qed
qed

lemma Find_node_Insert_node_other:
  "k \<noteq> fst d \<Longrightarrow>
     deref_data (Find_node k (fst (Insert_node d n sz))) = deref_data (Find_node k n)"
  by (induction n) (auto simp: case_prod_beta)

lemma Find_node_Insert_node_same:
  "Find_node (fst d) n = nullptr \<Longrightarrow>
     Find_node (fst d) (fst (Insert_node d n sz)) = BinaryNode d nullptr nullptr"
  by (induction n) (auto simp: case_prod_beta split: if_splits)

lemma Find_node_Erase_node_same:
  "bst_ordered n \<Longrightarrow> Find_node k (fst (Erase_node k n sz)) = nullptr"
  by (rule Find_node_absent) (simp add: key_set_Erase_node)

lemma Find_node_Erase_node_other:
  "bst_ordered n \<Longrightarrow> k' \<noteq> k \<Longrightarrow>
     deref_data (Find_node k' (fst (Erase_node k n sz))) = deref_data (Find_node k' n)"
proof (induction k n sz rule: Erase_node.induct)
  case (1 key sz)
  show ?case by simp
next
  case (2 key d l r sz)
  from "2.prems" have ol: "bst_ordered l" and or: "bst_ordered r"
    and lt: "\<forall>x \<in> key_set l. x < fst d" and gt: "\<forall>x \<in> key_set r. fst d < x" by simp_all
  consider (less) "key < fst d" | (greater) "fst d < key"
    | (two) "key = fst d" "l \<noteq> nullptr \<and> r \<noteq> nullptr"
    | (one) "key = fst d" "\<not> (l \<noteq> nullptr \<and> r \<noteq> nullptr)"
    by (metis less_linear)
  then show ?case
  proof cases
    case less
    with "2.IH"(1) ol "2.prems"(2) show ?thesis by (simp add: case_prod_beta)
  next
    case greater
    then have "\<not> key < fst d" by simp
    with greater "2.IH"(2) or "2.prems"(2) show ?thesis by (simp add: case_prod_beta)
  next
    case two
    let ?m = "fst (data (Min_node r))"
    let ?r' = "fst (Erase_node ?m r sz)"
    have res: "fst (Erase_node key (BinaryNode d l r) sz) = BinaryNode (data (Min_node r)) l ?r'"
      using two by (simp add: Let_def case_prod_beta)
    have min: "?m \<in> key_set r" using two by (simp add: Min_node_key_in)
    then have dm: "fst d < ?m" using gt by simp
    have least: "\<forall>x \<in> key_set r. ?m \<le> x" using or by (simp add: Min_node_least)
    have orig: "Find_node k' (BinaryNode d l r) = (if k' < fst d then Find_node k' l else Find_node k' r)"
      using "2.prems"(2) two(1) by auto
    have new: "Find_node k' (BinaryNode (data (Min_node r)) l ?r') =
        (if k' < ?m then Find_node k' l
         else if ?m < k' then Find_node k' ?r'
         else BinaryNode (data (Min_node r)) l ?r')"
      by simp
    consider (a) "k' < fst d" | (b) "fst d < k'" "k' < ?m" | (c) "k' = ?m" | (d) "?m < k'"
      using "2.prems"(2) two(1) by (metis less_linear)
    then show ?thesis
    proof cases
      case a
      then have "k' < ?m" using dm by (rule less_trans)
      with a show ?thesis unfolding res orig new by simp
    next
      case b
      have "k' \<notin> key_set l" using b lt by (auto dest: less_asym)
      then have 1: "Find_node k' l = nullptr" by (rule Find_node_absent)
      have "k' \<notin> key_set r" using b least by auto
      then have 2: "Find_node k' r = nullptr" by (rule Find_node_absent)
      have "\<not> k' < fst d" using b(1) by simp
      with b(2) 1 2 show ?thesis unfolding res orig new by simp
    next
      case c
      have f: "deref_data (Find_node ?m r) = Some (data (Min_node r))"
        using or two by (simp add: Find_node_Min_data)
      have n1: "\<not> ?m < fst d" using dm by simp
      have n2: "fst d \<noteq> ?m" using dm by (rule less_imp_neq)
      have A: "deref_data (Find_node ?m (BinaryNode (data (Min_node r)) l ?r')) = Some (data (Min_node r))"
        by simp
      have B: "deref_data (Find_node ?m (BinaryNode d l r)) = Some (data (Min_node r))"
        using n1 n2 f by simp
      show ?thesis unfolding res c A B by (rule refl)
    next
      case d
      have ih: "deref_data (Find_node k' ?r') = deref_data (Find_node k' r)"
        using "2.IH"(3) two or d by simp
      have n1: "\<not> k' < ?m" using d by simp
      have "fst d < k'" using dm d by (rule less_trans)
      then have n2: "\<not> k' < fst d" by simp
      from d n1 n2 ih show ?thesis unfolding res orig new by simp
    qed
  next
    case one
    have nl: "\<not> key < fst d" "\<not> fst d < key" using one(1) by simp_all
    have res: "fst (Erase_node key (BinaryNode d l r) sz) = (if l \<noteq> nullptr then l else r)"
      using nl one(2) by (cases "l = nullptr") simp_all
    show ?thesis
    proof (cases "k' < fst d")
      case True
      have "k' \<notin> key_set r" using True gt by (auto dest: less_asym)
      then have r0: "Find_node k' r = nullptr" by (rule Find_node_absent)
      have o: "Find_node k' (BinaryNode d l r) = Find_node k' l" using True by simp
      show ?thesis unfolding res o using r0 by (cases "l = nullptr") simp_all
    next
      case False
      with "2.prems"(2) one(1) have g: "fst d < k'" by simp
      have "k' \<notin> key_set l" using g lt by (auto dest: less_asym)
      then have l0: "Find_node k' l = nullptr" by (rule Find_node_absent)
      have o: "Find_node k' (BinaryNode d l r) = Find_node k' r" using False g by simp
      have "l = nullptr \<or> r = nullptr" using one(2) by simp
      then show ?thesis unfolding res o using l0 by (cases "l = nullptr") auto
    qed
  qed
qed

section \<open>The public operations\<close>

lemma Contains_iff_Find: "Contains k t \<longleftrightarrow> Find k t \<noteq> None"
  by (cases "Find_node k (m_Root t)") (simp_all add: Contains_def Find_def)

lemma Insert_present: "Contains (fst d) t \<Longrightarrow> Insert d t = t"
  by (simp add: Contains_def Insert_def Insert_node_present)

lemma Erase_absent: "\<not> Contains k t \<Longrightarrow> Erase k t = t"
  by (simp add: Contains_def Erase_def Erase_node_absent)

lemma Find_Insert_same: "\<not> Contains (fst d) t \<Longrightarrow> Find (fst d) (Insert d t) = Some (snd d)"
  by (simp add: Contains_def Find_def m_Root_Insert Find_node_Insert_node_same)

lemma Find_Insert_other: "k \<noteq> fst d \<Longrightarrow> Find k (Insert d t) = Find k t"
  by (simp add: Find_def m_Root_Insert Find_node_Insert_node_other)

lemma Find_Erase_other:
  "bst_ordered (m_Root t) \<Longrightarrow> k' \<noteq> k \<Longrightarrow> Find k' (Erase k t) = Find k' t"
  by (simp add: Find_def m_Root_Erase Find_node_Erase_node_other)

lemma Contains_Erase_same: "bst_ordered (m_Root t) \<Longrightarrow> \<not> Contains k (Erase k t)"
  by (simp add: Contains_def m_Root_Erase Find_node_Erase_node_same)

lemma Find_apply_operation_other:
  "bst_ordered (m_Root t) \<Longrightarrow> operation_key op \<noteq> k \<Longrightarrow>
     Find k (apply_operation op t) = Find k t"
  by (cases op) (auto simp: Find_Insert_other Find_Erase_other)

lemma Find_run_other:
  "bst_ordered (m_Root t) \<Longrightarrow> \<forall>op \<in> set ops. operation_key op \<noteq> k \<Longrightarrow>
     Find k (run ops t) = Find k t"
proof (induction ops arbitrary: t)
  case Nil
  show ?case by simp
next
  case (Cons op ops)
  have "bst_ordered (m_Root (apply_operation op t))"
    using Cons.prems(1) by (rule bst_ordered_apply_operation)
  moreover have "\<forall>x \<in> set ops. operation_key x \<noteq> k" using Cons.prems(2) by simp
  ultimately have "Find k (run ops (apply_operation op t)) = Find k (apply_operation op t)"
    by (rule Cons.IH)
  also have "\<dots> = Find k t"
    using Cons.prems by (simp add: Find_apply_operation_other)
  finally show ?case by simp
qed

section \<open>Size bookkeeping and the store\<close>

lemma length_inorder: "length (inorder n) = num_nodes n"
  by (induction n) simp_all

lemma Copy_id: "Copy n = n"
  by (induction n) simp_all

lemma Clear_node_nullptr: "Clear_node n = nullptr"
  by (cases n) (simp_all add: Let_def)

lemma Clear_eq: "Clear t = t\<lparr>m_Root := nullptr, m_Size := 0\<rparr>"
  by (simp add: Clear_def Clear_node_nullptr)

lemma wf_tree_default: "wf_tree BinarySearchTree_default"
  by (simp add: wf_tree_def BinarySearchTree_default_def)

lemma wf_tree_init: "wf_tree (BinarySearchTree_init d)"
  by (simp add: wf_tree_def BinarySearchTree_init_def)

lemma wf_tree_Clear: "wf_tree (Clear t)"
  by (simp add: wf_tree_def Clear_eq)

lemma wf_tree_Insert: "wf_tree t \<Longrightarrow> wf_tree (Insert d t)"
  by (simp add: wf_tree_def m_Root_Insert m_Size_Insert bst_ordered_Insert_node
      Insert_node_size num_nodes_Insert_node)

lemma wf_tree_Erase:
  assumes "wf_tree t"
  shows "wf_tree (Erase k t)"
proof (cases "Find_node k (m_Root t) = nullptr")
  case True
  then have "Erase k t = t" by (simp add: Erase_def Erase_node_absent)
  with assms show ?thesis by simp
next
  case False
  from assms have b: "bst_ordered (m_Root t)" and s: "m_Size t = of_nat (num_nodes (m_Root t))"
    by (simp_all add: wf_tree_def)
  have n: "num_nodes (m_Root (Erase k t)) + 1 = num_nodes (m_Root t)"
    using num_nodes_Erase_node [OF b False, of "m_Size t"] by (simp add: m_Root_Erase)
  have "m_Size (Erase k t) = m_Size t - 1"
    using b False by (simp add: m_Size_Erase Erase_node_size)
  also have "\<dots> = of_nat (num_nodes (m_Root (Erase k t)) + 1) - 1"
    using s n by simp
  also have "\<dots> = of_nat (num_nodes (m_Root (Erase k t)))" by simp
  finally have "m_Size (Erase k t) = of_nat (num_nodes (m_Root (Erase k t)))" .
  moreover have "bst_ordered (m_Root (Erase k t))"
    using b by (simp add: m_Root_Erase bst_ordered_Erase_node)
  ultimately show ?thesis by (simp add: wf_tree_def)
qed

lemma wf_tree_apply_operation: "wf_tree t \<Longrightarrow> wf_tree (apply_operation op t)"
  by (cases op) (simp_all add: wf_tree_Insert wf_tree_Erase)

lemma wf_tree_run: "wf_tree t \<Longrightarrow> wf_tree (run ops t)"
  by (induction ops arbitrary: t) (simp_all add: wf_tree_apply_operation)

lemma num_nodes_Insert:
  "num_nodes (m_Root (Insert d t)) =
     num_nodes (m_Root t) + (if Contains (fst d) t then 0 else 1)"
  by (simp add: m_Root_Insert num_nodes_Insert_node Contains_def)

lemma num_nodes_Erase:
  "bst_ordered (m_Root t) \<Longrightarrow>
     num_nodes (m_Root (Erase k t)) + (if Contains k t then 1 else 0) = num_nodes (m_Root t)"
  using num_nodes_Erase_node [of "m_Root t" k "m_Size t"]
  by (simp add: m_Root_Erase Erase_node_absent Contains_def)

lemma num_nodes_run:
  "wf_tree t \<Longrightarrow>
     num_nodes (m_Root (run ops t)) + successful_erases ops t =
     num_nodes (m_Root t) + successful_inserts ops t"
proof (induction ops arbitrary: t)
  case Nil
  show ?case by simp
next
  case (Cons op ops)
  have w: "wf_tree (apply_operation op t)" using Cons.prems by (rule wf_tree_apply_operation)
  note ih = Cons.IH [OF w]
  show ?case
  proof (cases op)
    case (OpInsert d)
    with ih num_nodes_Insert [of d t] show ?thesis by simp
  next
    case (OpErase k)
    from Cons.prems have "bst_ordered (m_Root t)" by (simp add: wf_tree_def)
    from num_nodes_Erase [OF this, of k] ih OpErase show ?thesis by simp
  qed
qed

lemma members_eq:
  "\<lparr>m_Root = m_Root t, m_Size = m_Size t\<rparr> = (t :: ('k, 'v) BinarySearchTree)"
  by (cases t) simp

lemma assign_move_eq:
  "assign_move this other s =
     (if this = other then s else s(this := s other, other := BinarySearchTree_default))"
  by (auto simp: assign_move_def Let_def Clear_eq BinarySearchTree_default_def fun_upd_twist)

lemma BinarySearchTree_move_eq:
  "this \<noteq> other \<Longrightarrow>
     BinarySearchTree_move this other s = s(this := s other, other := BinarySearchTree_default)"
  by (auto simp: BinarySearchTree_move_def Let_def BinarySearchTree_default_def)

lemma assign_copy_eq:
  "assign_copy this other s = s(this := s other)"
  by (auto simp: assign_copy_def Let_def Clear_eq Copy_id members_eq)

lemma BinarySearchTree_copy_eq: "BinarySearchTree_copy this other s = s(this := s other)"
  by (simp add: BinarySearchTree_copy_def Copy_id members_eq)

lemma wf_store_move: "wf_store s \<Longrightarrow> wf_store (BinarySearchTree_move this other s)"
  by (cases "this = other")
     (auto simp: wf_store_def BinarySearchTree_move_eq wf_tree_default
        BinarySearchTree_move_def Let_def wf_tree_def)

lemma wf_store_initial: "wf_store initial_store"
  by (simp add: wf_store_def initial_store_def wf_tree_default)

lemma unat_size: "n < 2 ^ 64 \<Longrightarrow> unat (of_nat n :: SizeType) = n"
  by (simp add: unat_of_nat)

section \<open>Erasing a node with two children\<close>

lemma subtree_at_Find_path: "subtree_at (Find_path k n) n = Find_node k n"
  by (induction n) simp_all

lemma inorder_Erase_Min:
  "bst_ordered n \<Longrightarrow> n \<noteq> nullptr \<Longrightarrow>
     inorder n = data (Min_node n) # inorder (fst (Erase_node (fst (data (Min_node n))) n sz))"
proof (induction n)
  case nullptr
  then show ?case by simp
next
  case (BinaryNode d l r)
  show ?case
  proof (cases "l = nullptr")
    case True
    then show ?thesis by simp
  next
    case False
    then have "fst (data (Min_node l)) \<in> key_set l" by (rule Min_node_key_in)
    with BinaryNode.prems have lt: "fst (data (Min_node l)) < fst d" by simp
    have "inorder l = data (Min_node l) # inorder (fst (Erase_node (fst (data (Min_node l))) l sz))"
      using BinaryNode.IH(1) BinaryNode.prems False by simp
    with False lt show ?thesis by (simp add: case_prod_beta)
  qed
qed

lemma subtree_at_Erase_two_children:
  "Find_node k n = BinaryNode d l r \<Longrightarrow> l \<noteq> nullptr \<Longrightarrow> r \<noteq> nullptr \<Longrightarrow>
     subtree_at (Find_path k n) (fst (Erase_node k n sz)) =
       BinaryNode (data (Min_node r)) l (fst (Erase_node (fst (data (Min_node r))) r sz))"
proof (induction n)
  case nullptr
  then show ?case by simp
next
  case (BinaryNode nd l0 r0)
  consider (less) "k < fst nd" | (greater) "\<not> k < fst nd" "fst nd < k"
    | (eq) "\<not> k < fst nd" "\<not> fst nd < k" by blast
  then show ?case
  proof cases
    case less
    with BinaryNode show ?thesis by (simp add: case_prod_beta)
  next
    case greater
    with BinaryNode show ?thesis by (simp add: case_prod_beta)
  next
    case eq
    with BinaryNode.prems have "nd = d" "l0 = l" "r0 = r" by simp_all
    with eq BinaryNode.prems(2,3) show ?thesis by (simp add: Let_def case_prod_beta)
  qed
qed

lemma inorder_Erase_two_children:
  "bst_ordered n \<Longrightarrow> Find_node k n = BinaryNode d l r \<Longrightarrow> l \<noteq> nullptr \<Longrightarrow>
   r \<noteq> nullptr \<Longrightarrow>
     \<exists>xs ys. inorder n = xs @ d # data (Min_node r) # ys
           \<and> inorder (fst (Erase_node k n sz)) = xs @ data (Min_node r) # ys"
proof (induction n)
  case nullptr
  then show ?case by simp
next
  case (BinaryNode nd l0 r0)
  consider (less) "k < fst nd" | (greater) "\<not> k < fst nd" "fst nd < k"
    | (eq) "\<not> k < fst nd" "\<not> fst nd < k" by blast
  then show ?case
  proof cases
    case less
    with BinaryNode.prems have f: "Find_node k l0 = BinaryNode d l r" and b: "bst_ordered l0"
      by simp_all
    from BinaryNode.IH(1) [OF b f BinaryNode.prems(3,4)] obtain xs ys
      where 1: "inorder l0 = xs @ d # data (Min_node r) # ys"
        and 2: "inorder (fst (Erase_node k l0 sz)) = xs @ data (Min_node r) # ys" by blast
    have "inorder (BinaryNode nd l0 r0) = xs @ d # data (Min_node r) # (ys @ nd # inorder r0)"
      using 1 by simp
    moreover have "inorder (fst (Erase_node k (BinaryNode nd l0 r0) sz))
        = xs @ data (Min_node r) # (ys @ nd # inorder r0)"
      using 2 less by (simp add: case_prod_beta)
    ultimately show ?thesis by blast
  next
    case greater
    with BinaryNode.prems have f: "Find_node k r0 = BinaryNode d l r" and b: "bst_ordered r0"
      by simp_all
    from BinaryNode.IH(2) [OF b f BinaryNode.prems(3,4)] obtain xs ys
      where 1: "inorder r0 = xs @ d # data (Min_node r) # ys"
        and 2: "inorder (fst (Erase_node k r0 sz)) = xs @ data (Min_node r) # ys" by blast
    have "inorder (BinaryNode nd l0 r0) = (inorder l0 @ nd # xs) @ d # data (Min_node r) # ys"
      using 1 by simp
    moreover have "inorder (fst (Erase_node k (BinaryNode nd l0 r0) sz))
        = (inorder l0 @ nd # xs) @ data (Min_node r) # ys"
      using 2 greater by (simp add: case_prod_beta)
    ultimately show ?thesis by blast
  next
    case eq
    with BinaryNode.prems have same: "nd = d" "l0 = l" "r0 = r" by simp_all
    from BinaryNode.prems(1) same have "bst_ordered r" by simp
    then have m: "inorder r = data (Min_node r)
        # inorder (fst (Erase_node (fst (data (Min_node r))) r sz))"
      using BinaryNode.prems(4) by (rule inorder_Erase_Min)
    have "inorder (BinaryNode nd l0 r0) = inorder l @ d # data (Min_node r)
        # inorder (fst (Erase_node (fst (data (Min_node r))) r sz))"
      using same m by simp
    moreover have "inorder (fst (Erase_node k (BinaryNode nd l0 r0) sz))
        = inorder l @ data (Min_node r) # inorder (fst (Erase_node (fst (data (Min_node r))) r sz))"
      using same eq BinaryNode.prems(3,4) by (simp add: Let_def case_prod_beta)
    ultimately show ?thesis by blast
  qed
qed

lemma bst_ordered_Find_node: "bst_ordered n \<Longrightarrow> bst_ordered (Find_node k n)"
  by (induction n) simp_all

lemma Find_node_member:
  "bst_ordered n \<Longrightarrow> p \<in> set (inorder n) \<Longrightarrow> deref_data (Find_node (fst p) n) = Some p"
proof (induction n)
  case nullptr
  then show ?case by simp
next
  case (BinaryNode d l r)
  have kl: "fst ` set (inorder l) = key_set l" and kr: "fst ` set (inorder r) = key_set r"
    using set_keys [of l] set_keys [of r] by (simp_all add: keys_def)
  from BinaryNode.prems(2) consider (left) "p \<in> set (inorder l)" | (here) "p = d"
    | (right) "p \<in> set (inorder r)" by auto
  then show ?case
  proof cases
    case left
    then have "fst p \<in> key_set l" using kl by blast
    with BinaryNode.prems(1) have "fst p < fst d" by simp
    with BinaryNode left show ?thesis by simp
  next
    case here
    then show ?thesis by simp
  next
    case right
    then have "fst p \<in> key_set r" using kr by blast
    with BinaryNode.prems(1) have g: "fst d < fst p" by simp
    then have "\<not> fst p < fst d" by simp
    with g BinaryNode right show ?thesis by simp
  qed
qed

section \<open>The level-by-level loop\<close>

lemma loop_delimiter:
  "LevelByLevel_loop fmt (nullptr # q) out =
     (if q = [] then Some (out @ [CHR 0x0A])
      else LevelByLevel_loop fmt (q @ [nullptr]) (out @ [CHR 0x0A]))"
  by (subst LevelByLevel_loop.simps) (simp add: Let_def)

lemma loop_node:
  "LevelByLevel_loop fmt (BinaryNode d l r # q) out =
     LevelByLevel_loop fmt (q @ children (BinaryNode d l r)) (out @ fmt (snd d) @ [CHR '' ''])"
  by (subst LevelByLevel_loop.simps) (simp add: Let_def)

lemma loop_level:
  "\<forall>n \<in> set cur. n \<noteq> nullptr \<Longrightarrow>
     LevelByLevel_loop fmt (cur @ nullptr # nxt) out =
     LevelByLevel_loop fmt (nullptr # nxt @ concat (map children cur))
       (out @ concat (map (\<lambda>v. fmt v @ [CHR '' '']) (forest_values 0 cur)))"
proof (induction cur arbitrary: nxt out)
  case Nil
  show ?case by (simp add: forest_values_def)
next
  case (Cons c cs)
  from Cons.prems obtain d l r where c: "c = BinaryNode d l r" by (cases c) auto
  from Cons.prems have rest: "\<forall>n \<in> set cs. n \<noteq> nullptr" by simp
  have "LevelByLevel_loop fmt ((c # cs) @ nullptr # nxt) out =
      LevelByLevel_loop fmt (cs @ nullptr # (nxt @ children c)) (out @ fmt (snd d) @ [CHR '' ''])"
    unfolding c by (simp add: loop_node del: children.simps)
  also have "\<dots> = LevelByLevel_loop fmt (nullptr # (nxt @ children c) @ concat (map children cs))
      ((out @ fmt (snd d) @ [CHR '' '']) @ concat (map (\<lambda>v. fmt v @ [CHR '' '']) (forest_values 0 cs)))"
    using rest by (rule Cons.IH)
  also have "\<dots> = LevelByLevel_loop fmt (nullptr # nxt @ concat (map children (c # cs)))
      (out @ concat (map (\<lambda>v. fmt v @ [CHR '' '']) (forest_values 0 (c # cs))))"
    unfolding c by (simp add: forest_values_def del: children.simps)
  finally show ?case .
qed

lemma children_not_null: "\<forall>m \<in> set (children n). m \<noteq> nullptr"
  by (cases n) auto

lemma forest_values_children:
  "forest_values (Suc i) ns = forest_values i (concat (map children ns))"
proof (induction ns)
  case Nil
  show ?case by (simp add: forest_values_def)
next
  case (Cons n ns)
  have "values_at_depth (Suc i) n = concat (map (values_at_depth i) (children n))"
    by (cases n) simp_all
  with Cons show ?case by (simp add: forest_values_def)
qed

lemma forest_height_append:
  "forest_height (xs @ ys) = max (forest_height xs) (forest_height ys)"
  by (induction xs) simp_all

lemma height_children: "n \<noteq> nullptr \<Longrightarrow> height n = Suc (forest_height (children n))"
  by (cases n) simp_all

lemma forest_height_children:
  "ns \<noteq> [] \<Longrightarrow> \<forall>n \<in> set ns. n \<noteq> nullptr \<Longrightarrow>
     forest_height ns = Suc (forest_height (concat (map children ns)))"
proof (induction ns)
  case Nil
  then show ?case by simp
next
  case (Cons n ns)
  from Cons.prems have n: "n \<noteq> nullptr" by simp
  show ?case
  proof (cases "ns = []")
    case True
    with n show ?thesis by (simp add: height_children)
  next
    case False
    with Cons have "forest_height ns = Suc (forest_height (concat (map children ns)))" by simp
    with n show ?thesis by (simp add: height_children forest_height_append)
  qed
qed

lemma loop_all_levels:
  "forest_height ns = h \<Longrightarrow> ns \<noteq> [] \<Longrightarrow> \<forall>n \<in> set ns. n \<noteq> nullptr \<Longrightarrow>
     LevelByLevel_loop fmt (ns @ [nullptr]) out =
       Some (out @ concat (map (\<lambda>i. level_line fmt (forest_values i ns)) [0 ..< h]))"
proof (induction h arbitrary: ns out)
  case 0
  then show ?case using forest_height_children [of ns] by simp
next
  case (Suc h)
  let ?cs = "concat (map children ns)"
  let ?out = "out @ level_line fmt (forest_values 0 ns)"
  have hc: "forest_height ?cs = h"
    using forest_height_children [OF Suc.prems(2,3)] Suc.prems(1) by simp
  have nn: "\<forall>n \<in> set ?cs. n \<noteq> nullptr" using children_not_null by auto
  have step: "LevelByLevel_loop fmt (ns @ [nullptr]) out =
      (if ?cs = [] then Some ?out else LevelByLevel_loop fmt (?cs @ [nullptr]) ?out)"
    using loop_level [OF Suc.prems(3), of fmt "[]" out]
    by (simp add: loop_delimiter level_line_def)
  have shift: "map (\<lambda>i. level_line fmt (forest_values i ns)) [0 ..< Suc h] =
      level_line fmt (forest_values 0 ns)
        # map (\<lambda>i. level_line fmt (forest_values i ?cs)) [0 ..< h]"
    by (simp add: map_upt_Suc forest_values_children del: upt_Suc)
  show ?case
  proof (cases "?cs = []")
    case True
    have "forest_height ?cs = 0" unfolding True by simp
    then have "h = 0" using hc by simp
    with True show ?thesis unfolding step shift by simp
  next
    case False
    have "LevelByLevel_loop fmt (?cs @ [nullptr]) ?out =
        Some (?out @ concat (map (\<lambda>i. level_line fmt (forest_values i ?cs)) [0 ..< h]))"
      using hc False nn by (rule Suc.IH)
    with False show ?thesis unfolding step shift by auto
  qed
qed

lemma LevelByLevel_eq: "LevelByLevel fmt t out = Some (out @ lines_by_depth fmt (m_Root t))"
proof (cases "m_Root t = nullptr")
  case True
  then show ?thesis by (simp add: LevelByLevel_def lines_by_depth_def)
next
  case False
  have "LevelByLevel_loop fmt ([m_Root t] @ [nullptr]) out =
      Some (out @ concat (map (\<lambda>i. level_line fmt (forest_values i [m_Root t]))
        [0 ..< forest_height [m_Root t]]))"
    using False by (intro loop_all_levels) simp_all
  with False show ?thesis
    by (simp add: LevelByLevel_def lines_by_depth_def forest_values_def)
qed

section \<open>Calls that may fail to allocate\<close>

lemma Insert_node_alloc_Returns:
  "0 < heap \<Longrightarrow> Insert_node_alloc heap d n sz = Returns (Insert_node d n sz)"
  by (induction n) (simp_all add: Let_def case_prod_beta split: prod.splits)

lemma Insert_node_alloc_zero:
  "Insert_node_alloc 0 d n sz =
     (if Find_node (fst d) n = nullptr then Throws (n, sz + 1) else Returns (n, sz))"
  by (induction n) (simp_all add: Let_def)

lemma Copy_alloc_eq:
  "Copy_alloc heap n =
     (if num_nodes n \<le> heap then Some (n, heap - num_nodes n) else None)"
proof (induction n arbitrary: heap)
  case nullptr
  show ?case by simp
next
  case (BinaryNode d l r)
  show ?case
  proof (cases heap)
    case 0
    then show ?thesis by simp
  next
    case (Suc h1)
    then show ?thesis by (auto simp: BinaryNode)
  qed
qed

lemma Insert_alloc_Returns: "0 < heap \<Longrightarrow> Insert_alloc heap d t = Returns (Insert d t)"
  by (simp add: Insert_alloc_def Insert_def Insert_node_alloc_Returns case_prod_beta)

lemma Insert_alloc_zero:
  "Insert_alloc 0 d t =
     (if Contains (fst d) t then Returns t else Throws (t\<lparr>m_Size := m_Size t + 1\<rparr>))"
  by (simp add: Insert_alloc_def Insert_node_alloc_zero Contains_def)

lemma Clear_default: "Clear t = BinarySearchTree_default"
  by (cases t) (simp add: Clear_eq BinarySearchTree_default_def)

lemma assign_copy_alloc_eq:
  "this \<noteq> other \<Longrightarrow>
     assign_copy_alloc heap this other s =
       (if num_nodes (m_Root (s other)) \<le> heap + num_nodes (m_Root (s this))
        then Returns (assign_copy this other s)
        else Throws (s(this := BinarySearchTree_default)))"
  by (simp add: assign_copy_alloc_def Copy_alloc_eq Let_def Clear_default assign_copy_def Copy_id)

lemma wf_tree_Insert_alloc:
  "wf_tree t \<Longrightarrow> \<not> (heap = 0 \<and> \<not> Contains (fst d) t) \<Longrightarrow>
     wf_tree (state_of (Insert_alloc heap d t))"
  by (cases "heap = 0") (auto simp: Insert_alloc_zero Insert_alloc_Returns wf_tree_Insert)

lemma wf_store_upd: "wf_store s \<Longrightarrow> wf_tree t \<Longrightarrow> wf_store (s(a := t))"
  by (simp add: wf_store_def)

lemma wf_store_init_alloc:
  "wf_store s \<Longrightarrow> wf_store (state_of (BinarySearchTree_init_alloc heap a d s))"
  using wf_tree_init [of d]
  by (simp add: BinarySearchTree_init_alloc_def wf_store_upd BinarySearchTree_init_def)

lemma wf_store_copy_alloc:
  "wf_store s \<Longrightarrow> wf_store (state_of (BinarySearchTree_copy_alloc heap a b s))"
  by (simp add: BinarySearchTree_copy_alloc_def Copy_alloc_eq wf_store_def wf_tree_def)

lemma wf_store_assign_copy_alloc:
  "wf_store s \<Longrightarrow> wf_store (state_of (assign_copy_alloc heap a b s))"
proof (cases "a = b")
  case True
  assume "wf_store s"
  with True show ?thesis by (simp add: assign_copy_alloc_def)
next
  case False
  assume "wf_store s"
  with False show ?thesis
    by (simp add: assign_copy_alloc_eq assign_copy_eq wf_store_def wf_tree_default)
qed

lemma wf_store_exec:
  "wf_store s \<Longrightarrow> \<not> insert_throws c s \<Longrightarrow> wf_store (exec c s)"
proof (cases c)
  case (CallMove a b)
  assume "wf_store s"
  then show ?thesis unfolding CallMove exec.simps by (rule wf_store_move)
next
  case (CallInsert a d heap)
  assume w: "wf_store s" and n: "\<not> insert_throws c s"
  from w have "wf_tree (s a)" by (simp add: wf_store_def)
  moreover from n have "\<not> (heap = 0 \<and> \<not> Contains (fst d) (s a))"
    unfolding CallInsert by simp
  ultimately have "wf_tree (state_of (Insert_alloc heap d (s a)))"
    by (rule wf_tree_Insert_alloc)
  with w show ?thesis unfolding CallInsert exec.simps by (rule wf_store_upd)
next
  case (CallInit a d heap)
  assume "wf_store s"
  then show ?thesis unfolding CallInit exec.simps by (rule wf_store_init_alloc)
next
  case (CallCopy a b heap)
  assume "wf_store s"
  then show ?thesis unfolding CallCopy exec.simps by (rule wf_store_copy_alloc)
next
  case (CallAssignCopy a b heap)
  assume "wf_store s"
  then show ?thesis unfolding CallAssignCopy exec.simps by (rule wf_store_assign_copy_alloc)
qed (auto simp: wf_store_def wf_tree_default wf_tree_Clear wf_tree_Erase assign_move_eq)

lemma wf_store_execs:
  "wf_store s \<Longrightarrow> no_insert_throws cs s \<Longrightarrow> wf_store (execs cs s)"
  by (induction cs arbitrary: s) (simp_all add: wf_store_exec)

text \<open>
  As long as no \<^verbatim>\<open>Insert\<close> throws, every object's size member is its node count, whatever
  else fails; and from the empty tree, inserts of absent keys and erases of present keys
  are counted exactly.
\<close>

lemma size_holds_unless_insert_throws:
  fixes calls :: "('k::linorder, 'v) call list"
  assumes "no_insert_throws calls initial_store"
  shows "Size (execs calls initial_store a)
           = of_nat (length (inorder (m_Root (execs calls initial_store a))))"
proof -
  have "wf_store (execs calls (initial_store :: ('k, 'v) store))"
    using wf_store_initial assms by (rule wf_store_execs)
  then have "wf_tree (execs calls initial_store a)" by (simp add: wf_store_def)
  then show ?thesis by (simp add: wf_tree_def Size_def length_inorder)
qed

lemma size_after_inserts_and_erases:
  fixes ops :: "('k::linorder, 'v) operation list"
  shows "successful_erases ops BinarySearchTree_default
            \<le> successful_inserts ops BinarySearchTree_default
       \<and> length (inorder (m_Root (run ops BinarySearchTree_default)))
            = successful_inserts ops BinarySearchTree_default
              - successful_erases ops BinarySearchTree_default
       \<and> Size (run ops BinarySearchTree_default)
            = of_nat (successful_inserts ops BinarySearchTree_default
                      - successful_erases ops BinarySearchTree_default)"
proof -
  let ?e = "BinarySearchTree_default :: ('k, 'v) BinarySearchTree"
  let ?N = "successful_inserts ops ?e" and ?M = "successful_erases ops ?e"
  have "num_nodes (m_Root (run ops ?e)) + ?M = num_nodes (m_Root ?e) + ?N"
    using wf_tree_default by (rule num_nodes_run)
  then have c: "num_nodes (m_Root (run ops ?e)) + ?M = ?N"
    by (simp add: BinarySearchTree_default_def)
  then have 3: "?M \<le> ?N" and 4: "length (inorder (m_Root (run ops ?e))) = ?N - ?M"
    by (simp_all add: length_inorder)
  have "wf_tree (run ops ?e)" using wf_tree_default by (rule wf_tree_run)
  then have 5: "Size (run ops ?e) = of_nat (?N - ?M)"
    using 4 by (simp add: wf_tree_def Size_def length_inorder)
  from 3 4 5 show ?thesis by blast
qed

section \<open>The worked example\<close>

lemma example_tree_eq:
  "example_tree =
     \<lparr>m_Root =
        BinaryNode (5, ''five'')
          (BinaryNode (3, ''three'')
             (BinaryNode (1, ''one'') nullptr nullptr)
             (BinaryNode (4, ''four'') nullptr nullptr))
          (BinaryNode (8, ''eight'')
             (BinaryNode (7, ''seven'') nullptr nullptr)
             (BinaryNode (9, ''nine'') nullptr nullptr)),
      m_Size = 7\<rparr>"
  by (simp add: example_tree_def Insert_def BinarySearchTree_default_def)

lemma bst_ordered_example_tree: "bst_ordered (m_Root example_tree)"
  by (simp add: example_tree_eq)

section \<open>The ordering invariant\<close>

text \<open>
  Claim C1. Every tree reached from the empty tree by a sequence of \<^verbatim>\<open>Insert\<close> and
  \<^verbatim>\<open>Erase\<close> calls lists its keys in strictly increasing order when traversed in order;
  equivalently, at every node the keys of the left subtree are smaller and those of the
  right subtree are greater than the node's key, and no key occurs twice.
\<close>

theorem ordering_invariant:
  fixes ops :: "('k::linorder, 'v) operation list"
  shows "sorted_wrt (<) (keys (m_Root (run ops BinarySearchTree_default)))
       \<and> bst_ordered (m_Root (run ops BinarySearchTree_default))
       \<and> distinct (keys (m_Root (run ops BinarySearchTree_default)))"
proof -
  have "bst_ordered (m_Root (BinarySearchTree_default :: ('k, 'v) BinarySearchTree))"
    by (simp add: BinarySearchTree_default_def)
  then have b: "bst_ordered (m_Root (run ops BinarySearchTree_default))"
    by (rule bst_ordered_run)
  then have s: "sorted_wrt (<) (keys (m_Root (run ops BinarySearchTree_default)))"
    by (simp add: bst_ordered_iff_sorted)
  from b s strict_sorted_distinct [OF s] show ?thesis by simp
qed

theorem ordering_invariant_witness:
  "keys (m_Root (run [OpInsert (5::int, ''e''), OpInsert (3, ''c''), OpInsert (8, ''h''),
                      OpInsert (1, ''a''), OpInsert (4, ''d''), OpInsert (7, ''g''),
                      OpInsert (9, ''i''), OpErase 5] BinarySearchTree_default))
     = [1, 3, 4, 7, 8, 9]
   \<and> sorted_wrt (<) (keys (m_Root (run [OpInsert (5::int, ''e''), OpInsert (3, ''c''),
                      OpInsert (8, ''h''), OpInsert (1, ''a''), OpInsert (4, ''d''),
                      OpInsert (7, ''g''), OpInsert (9, ''i''), OpErase 5]
                      BinarySearchTree_default)))"
  using ordering_invariant [of "[OpInsert (5::int, ''e''), OpInsert (3, ''c''),
                      OpInsert (8, ''h''), OpInsert (1, ''a''), OpInsert (4, ''d''),
                      OpInsert (7, ''g''), OpInsert (9, ''i''), OpErase 5]"]
  by (simp add: keys_def Insert_def Erase_def BinarySearchTree_default_def)

section \<open>Erase at a node with two children\<close>

text \<open>
  Claim C2. In a tree that satisfies the ordering invariant, let \<^verbatim>\<open>Find\<close> stop for key \<open>k\<close>
  at a node with pair \<open>d\<close> and two children \<open>l\<close> and \<open>r\<close>. After \<^verbatim>\<open>Erase(k)\<close> the same
  position holds the pair of the minimum node of \<open>r\<close>, the left subtree \<open>l\<close> untouched,
  and \<open>r\<close> with that minimum erased by its key, which removes exactly the first node of
  \<open>r\<close> in order. In the in-order sequence of the whole tree the successor's pair stands
  where \<open>d\<close> stood and nothing else changes; the ordering invariant holds, one node is
  gone, \<^verbatim>\<open>Size()\<close> is one less, the successor's key is found with its value and \<open>k\<close> is
  no longer contained.
\<close>

theorem two_child_erase:
  assumes "bst_ordered (m_Root t)"
    and "Find_node k (m_Root t) = BinaryNode d l r"
    and "l \<noteq> nullptr" and "r \<noteq> nullptr"
  shows "subtree_at (Find_path k (m_Root t)) (m_Root t) = BinaryNode d l r
       \<and> subtree_at (Find_path k (m_Root t)) (m_Root (Erase k t)) =
           BinaryNode (data (Min_node r)) l
             (fst (Erase_node (fst (data (Min_node r))) r (m_Size t)))
       \<and> inorder r = data (Min_node r)
           # inorder (fst (Erase_node (fst (data (Min_node r))) r (m_Size t)))
       \<and> (\<exists>xs ys. inorder (m_Root t) = xs @ d # data (Min_node r) # ys
             \<and> inorder (m_Root (Erase k t)) = xs @ data (Min_node r) # ys)
       \<and> bst_ordered (m_Root (Erase k t))
       \<and> sorted_wrt (<) (keys (m_Root (Erase k t)))
       \<and> num_nodes (m_Root (Erase k t)) + 1 = num_nodes (m_Root t)
       \<and> Size (Erase k t) = Size t - 1
       \<and> Find (fst (data (Min_node r))) (Erase k t) = Some (snd (data (Min_node r)))
       \<and> \<not> Contains k (Erase k t)"
proof -
  let ?m = "data (Min_node r)"
  let ?r' = "fst (Erase_node (fst ?m) r (m_Size t))"
  have present: "Find_node k (m_Root t) \<noteq> nullptr" using assms(2) by simp
  have 1: "subtree_at (Find_path k (m_Root t)) (m_Root t) = BinaryNode d l r"
    using assms(2) by (simp add: subtree_at_Find_path)
  have 2: "subtree_at (Find_path k (m_Root t)) (m_Root (Erase k t)) = BinaryNode ?m l ?r'"
    unfolding m_Root_Erase using assms(2,3,4) by (rule subtree_at_Erase_two_children)
  have "bst_ordered (Find_node k (m_Root t))" using assms(1) by (rule bst_ordered_Find_node)
  then have br: "bst_ordered r" using assms(2) by simp
  have 3: "inorder r = ?m # inorder ?r'" using br assms(4) by (rule inorder_Erase_Min)
  have 4: "\<exists>xs ys. inorder (m_Root t) = xs @ d # ?m # ys
      \<and> inorder (m_Root (Erase k t)) = xs @ ?m # ys"
    unfolding m_Root_Erase using assms by (rule inorder_Erase_two_children)
  have 5: "bst_ordered (m_Root (Erase k t))"
    using assms(1) by (simp add: m_Root_Erase bst_ordered_Erase_node)
  then have 6: "sorted_wrt (<) (keys (m_Root (Erase k t)))"
    by (simp add: bst_ordered_iff_sorted)
  have 7: "num_nodes (m_Root (Erase k t)) + 1 = num_nodes (m_Root t)"
    unfolding m_Root_Erase using assms(1) present by (rule num_nodes_Erase_node)
  have 8: "Size (Erase k t) = Size t - 1"
    unfolding Size_def m_Size_Erase using assms(1) present by (rule Erase_node_size)
  have 10: "\<not> Contains k (Erase k t)" using assms(1) by (rule Contains_Erase_same)
  from 4 obtain xs ys where "inorder (m_Root (Erase k t)) = xs @ ?m # ys" by blast
  then have "?m \<in> set (inorder (m_Root (Erase k t)))" by simp
  with 5 have "deref_data (Find_node (fst ?m) (m_Root (Erase k t))) = Some ?m"
    by (rule Find_node_member)
  then have 9: "Find (fst ?m) (Erase k t) = Some (snd ?m)" by (simp add: Find_def)
  from 1 2 3 4 5 6 7 8 9 10 show ?thesis by blast
qed

theorem two_child_erase_witness:
  "bst_ordered (m_Root example_tree)
   \<and> Find_node 5 (m_Root example_tree) =
       BinaryNode (5, ''five'')
         (BinaryNode (3, ''three'')
            (BinaryNode (1, ''one'') nullptr nullptr)
            (BinaryNode (4, ''four'') nullptr nullptr))
         (BinaryNode (8, ''eight'')
            (BinaryNode (7, ''seven'') nullptr nullptr)
            (BinaryNode (9, ''nine'') nullptr nullptr))
   \<and> m_Root (Erase 5 example_tree) =
       BinaryNode (7, ''seven'')
         (BinaryNode (3, ''three'')
            (BinaryNode (1, ''one'') nullptr nullptr)
            (BinaryNode (4, ''four'') nullptr nullptr))
         (BinaryNode (8, ''eight'') nullptr (BinaryNode (9, ''nine'') nullptr nullptr))
   \<and> keys (m_Root (Erase 5 example_tree)) = [1, 3, 4, 7, 8, 9]
   \<and> sorted_wrt (<) (keys (m_Root (Erase 5 example_tree)))
   \<and> Size example_tree = 7
   \<and> Size (Erase 5 example_tree) = 6
   \<and> Find 7 (Erase 5 example_tree) = Some ''seven''
   \<and> \<not> Contains 5 (Erase 5 example_tree)"
proof -
  let ?l = "BinaryNode (3::int, ''three'')
            (BinaryNode (1, ''one'') nullptr nullptr)
            (BinaryNode (4, ''four'') nullptr nullptr)"
  let ?r = "BinaryNode (8::int, ''eight'')
            (BinaryNode (7, ''seven'') nullptr nullptr)
            (BinaryNode (9, ''nine'') nullptr nullptr)"
  have f: "Find_node 5 (m_Root example_tree) = BinaryNode (5, ''five'') ?l ?r"
    by (simp add: example_tree_eq)
  have l: "?l \<noteq> nullptr" and r: "?r \<noteq> nullptr" by simp_all
  have root: "m_Root (Erase 5 example_tree) =
      BinaryNode (7, ''seven'') ?l
        (BinaryNode (8, ''eight'') nullptr (BinaryNode (9, ''nine'') nullptr nullptr))"
    by (simp add: example_tree_eq Erase_def)
  have k: "keys (m_Root (Erase 5 example_tree)) = [1, 3, 4, 7, 8, 9]"
    unfolding root by (simp add: keys_def)
  have s: "Size example_tree = 7" by (simp add: Size_def example_tree_eq)
  from two_child_erase [OF bst_ordered_example_tree f l r]
    bst_ordered_example_tree f root k s
  show ?thesis by simp
qed

section \<open>The size member after a failed Insert\<close>

text \<open>
  Claim C3 says that \<^verbatim>\<open>Size()\<close> is the number of nodes after any sequence of operations.
  The private \<^verbatim>\<open>Insert\<close> increments \<^verbatim>\<open>m_Size\<close> and then allocates. On a
  default-constructed tree, \<^verbatim>\<open>Insert((2, two))\<close> with an allocator that has nothing to
  give throws and leaves no root and \<^verbatim>\<open>Size() == 1\<close>, so \<^verbatim>\<open>Empty()\<close> is false on a tree
  without nodes; two inserts that succeed afterwards leave two nodes and
  \<^verbatim>\<open>Size() == 3\<close>.
\<close>

theorem failed_insert_size:
  "Insert_alloc 0 (2::int, ''two'') BinarySearchTree_default
     = Throws \<lparr>m_Root = nullptr, m_Size = 1\<rparr>
   \<and> execs [CallInsert 0 (2::int, ''two'') 0] initial_store 0
     = \<lparr>m_Root = nullptr, m_Size = 1\<rparr>
   \<and> Size (execs [CallInsert 0 (2::int, ''two'') 0] initial_store 0) = 1
   \<and> length (inorder (m_Root (execs [CallInsert 0 (2::int, ''two'') 0] initial_store 0))) = 0
   \<and> \<not> Empty (execs [CallInsert 0 (2::int, ''two'') 0] initial_store 0)
   \<and> Size (execs [CallInsert 0 (2::int, ''two'') 0, CallInsert 0 (2, ''two'') 1,
                   CallInsert 0 (3, ''three'') 1] initial_store 0) = 3
   \<and> length (inorder (m_Root (execs [CallInsert 0 (2::int, ''two'') 0,
                   CallInsert 0 (2, ''two'') 1, CallInsert 0 (3, ''three'') 1]
                   initial_store 0))) = 2"
  by (simp add: Insert_alloc_def initial_store_def BinarySearchTree_default_def
      Size_def Empty_def Let_def)

section \<open>Inserting a key that is present\<close>

text \<open>
  Claim C4. If key \<open>k\<close> is present with value \<open>v\<close>, then \<^verbatim>\<open>Insert\<close> of a pair \<open>(k, v')\<close>
  changes nothing: the tree object (its shape and its \<^verbatim>\<open>Size()\<close>) is the same afterwards
  and \<^verbatim>\<open>Find(k)\<close> still gives \<open>v\<close>, not \<open>v'\<close>.
\<close>

theorem duplicate_insert_noop:
  assumes "Contains k t" and "Find k t = Some v"
  shows "Insert (k, v') t = t
       \<and> m_Root (Insert (k, v') t) = m_Root t
       \<and> Size (Insert (k, v') t) = Size t
       \<and> Find k (Insert (k, v') t) = Some v"
proof -
  have "Insert (k, v') t = t" using assms(1) by (simp add: Insert_present)
  with assms(2) show ?thesis by simp
qed

theorem duplicate_insert_noop_witness:
  "Contains (2::int) (Insert (2, ''first'') BinarySearchTree_default)
   \<and> Find 2 (Insert (2::int, ''first'') BinarySearchTree_default) = Some ''first''
   \<and> Insert (2, ''second'') (Insert (2::int, ''first'') BinarySearchTree_default)
       = Insert (2, ''first'') BinarySearchTree_default
   \<and> Size (Insert (2, ''second'') (Insert (2::int, ''first'') BinarySearchTree_default)) = 1
   \<and> Find 2 (Insert (2, ''second'') (Insert (2::int, ''first'') BinarySearchTree_default))
       = Some ''first''"
proof -
  let ?t = "Insert (2::int, ''first'') BinarySearchTree_default"
  have c: "Contains 2 ?t"
    by (simp add: Contains_def Insert_def BinarySearchTree_default_def)
  have f: "Find 2 ?t = Some ''first''"
    by (simp add: Find_def Insert_def BinarySearchTree_default_def)
  have s: "Size ?t = 1"
    by (simp add: Size_def Insert_def BinarySearchTree_default_def)
  from duplicate_insert_noop [OF c f, of "''second''"] c f s show ?thesis by simp
qed

section \<open>Insert, then find, then erase\<close>

text \<open>
  Claim C5. In a tree that satisfies the ordering invariant and does not hold \<open>k\<close>, after
  \<^verbatim>\<open>Insert((k, v))\<close> the key is contained and \<^verbatim>\<open>Find(k)\<close> gives \<open>v\<close>; both stay so
  under any further \<^verbatim>\<open>Insert\<close> and \<^verbatim>\<open>Erase\<close> calls on other keys; after
  \<^verbatim>\<open>Erase(k)\<close> the key is no longer contained.
\<close>

theorem roundtrip:
  assumes "bst_ordered (m_Root t)" and "\<not> Contains k t"
    and "\<forall>op \<in> set ops. operation_key op \<noteq> k"
  shows "Contains k (Insert (k, v) t) \<and> Find k (Insert (k, v) t) = Some v
       \<and> Contains k (run ops (Insert (k, v) t))
       \<and> Find k (run ops (Insert (k, v) t)) = Some v
       \<and> \<not> Contains k (Erase k (run ops (Insert (k, v) t)))"
proof -
  let ?t1 = "Insert (k, v) t"
  have f1: "Find k ?t1 = Some v" using assms(2) Find_Insert_same [of "(k, v)" t] by simp
  have b1: "bst_ordered (m_Root ?t1)"
    using assms(1) by (simp add: m_Root_Insert bst_ordered_Insert_node)
  have f2: "Find k (run ops ?t1) = Some v"
    using Find_run_other [OF b1 assms(3)] f1 by simp
  have b2: "bst_ordered (m_Root (run ops ?t1))" using b1 by (rule bst_ordered_run)
  have e: "\<not> Contains k (Erase k (run ops ?t1))" using b2 by (rule Contains_Erase_same)
  from f1 f2 e show ?thesis by (simp add: Contains_iff_Find)
qed

theorem roundtrip_witness:
  "bst_ordered (m_Root example_tree) \<and> \<not> Contains 6 example_tree
   \<and> operation_key (OpErase 5 :: (int, string) operation) \<noteq> 6
   \<and> operation_key (OpInsert (10, ''ten'') :: (int, string) operation) \<noteq> 6
   \<and> Contains 6 (run [OpErase 5, OpInsert (10, ''ten'')] (Insert (6, ''six'') example_tree))
   \<and> Find 6 (run [OpErase 5, OpInsert (10, ''ten'')] (Insert (6, ''six'') example_tree))
       = Some ''six''
   \<and> \<not> Contains 6
       (Erase 6 (run [OpErase 5, OpInsert (10, ''ten'')] (Insert (6, ''six'') example_tree)))"
proof -
  have h2: "\<not> Contains 6 example_tree" by (simp add: Contains_def example_tree_eq)
  have h3: "\<forall>op \<in> set [OpErase 5, OpInsert (10, ''ten'')]. operation_key op \<noteq> (6::int)"
    by simp
  from roundtrip [OF bst_ordered_example_tree h2 h3, of "''six''"]
    bst_ordered_example_tree h2 h3
  show ?thesis by simp
qed

section \<open>What Erase leaves alone\<close>

text \<open>
  Claim C6. In a tree that satisfies the ordering invariant, \<^verbatim>\<open>Erase(k)\<close> changes neither
  the presence nor the value of any other key; and when \<open>k\<close> is absent, in any tree,
  \<^verbatim>\<open>Erase(k)\<close> returns the tree object unchanged: same shape, same contents, same size.
\<close>

theorem erase_frame:
  "(bst_ordered (m_Root t) \<longrightarrow> k' \<noteq> k \<longrightarrow>
      Contains k' (Erase k t) = Contains k' t \<and> Find k' (Erase k t) = Find k' t)
   \<and> (\<not> Contains k t \<longrightarrow>
      Erase k t = t \<and> m_Root (Erase k t) = m_Root t \<and> Size (Erase k t) = Size t)"
  by (simp add: Contains_iff_Find Find_Erase_other Erase_absent)

theorem erase_frame_witness:
  "bst_ordered (m_Root example_tree) \<and> (7::int) \<noteq> 5
   \<and> Contains 7 (Erase 5 example_tree) \<and> Find 7 (Erase 5 example_tree) = Some ''seven''
   \<and> \<not> Contains 6 example_tree \<and> Erase 6 example_tree = example_tree"
proof -
  have c: "Contains 7 example_tree" by (simp add: Contains_def example_tree_eq)
  have f: "Find 7 example_tree = Some ''seven''" by (simp add: Find_def example_tree_eq)
  have h2: "\<not> Contains 6 example_tree" by (simp add: Contains_def example_tree_eq)
  from erase_frame [of example_tree 7 5] erase_frame [of example_tree 7 6]
    bst_ordered_example_tree c f h2
  show ?thesis by simp
qed

section \<open>Move construction and move assignment\<close>

text \<open>
  Claim C7. After the move constructor or the move assignment operator has run on two
  distinct objects, the target holds exactly the root and size the source had, and the
  source is empty: no root, \<^verbatim>\<open>Size() == 0\<close>, \<^verbatim>\<open>Empty()\<close> true. Move assignment of an
  object to itself changes nothing.
\<close>

theorem move_transfer:
  "(this \<noteq> other \<longrightarrow>
      BinarySearchTree_move this other s this = s other
    \<and> m_Root (BinarySearchTree_move this other s other) = nullptr
    \<and> Size (BinarySearchTree_move this other s other) = 0
    \<and> Empty (BinarySearchTree_move this other s other)
    \<and> assign_move this other s this = s other
    \<and> m_Root (assign_move this other s other) = nullptr
    \<and> Size (assign_move this other s other) = 0
    \<and> Empty (assign_move this other s other))
   \<and> assign_move this this s = s"
  by (simp add: assign_move_eq BinarySearchTree_move_eq BinarySearchTree_default_def
      Size_def Empty_def)

theorem move_transfer_witness:
  "(1::addr) \<noteq> 0
   \<and> BinarySearchTree_move 1 0 example_store 1 = example_tree
   \<and> Empty (BinarySearchTree_move 1 0 example_store 0)
   \<and> assign_move 1 0 example_store 1 = example_tree
   \<and> Size (assign_move 1 0 example_store 1) = 7
   \<and> m_Root (assign_move 1 0 example_store 0) = nullptr
   \<and> Size (assign_move 1 0 example_store 0) = 0
   \<and> Empty (assign_move 1 0 example_store 0)"
proof -
  have e: "example_store 0 = example_tree" by (simp add: example_store_def)
  have s: "Size example_tree = 7" by (simp add: Size_def example_tree_eq)
  from move_transfer [of 1 0 example_store] e s show ?thesis by simp
qed

section \<open>The output of LevelByLevel\<close>

text \<open>
  Claim C8. \<^verbatim>\<open>LevelByLevel\<close> always leaves its loop, and what it appends to the stream is
  one line per depth, from the root down, each line holding the values at that depth from
  left to right, every value followed by one space, the line closed by a newline. On an
  empty tree it writes nothing. For the tree built by inserting the keys 5, 3, 8, 1, 4,
  7, 9 in that order it writes three lines: the value of 5; the values of 3 and 8; the
  values of 1, 4, 7 and 9.
\<close>

theorem LevelByLevel_output:
  "LevelByLevel fmt t out = Some (out @ lines_by_depth fmt (m_Root t))
   \<and> (m_Root t = nullptr \<longrightarrow> LevelByLevel fmt t out = Some out)
   \<and> LevelByLevel fmt'
        (run [OpInsert (5::int, v5), OpInsert (3, v3), OpInsert (8, v8), OpInsert (1, v1),
              OpInsert (4, v4), OpInsert (7, v7), OpInsert (9, v9)] BinarySearchTree_default)
        out'
      = Some (out' @ fmt' v5 @ '' '' @ [CHR 0x0A]
              @ fmt' v3 @ '' '' @ fmt' v8 @ '' '' @ [CHR 0x0A]
              @ fmt' v1 @ '' '' @ fmt' v4 @ '' '' @ fmt' v7 @ '' '' @ fmt' v9 @ '' ''
              @ [CHR 0x0A])"
proof -
  let ?t = "run [OpInsert (5::int, v5), OpInsert (3, v3), OpInsert (8, v8), OpInsert (1, v1),
              OpInsert (4, v4), OpInsert (7, v7), OpInsert (9, v9)] BinarySearchTree_default"
  have 1: "LevelByLevel fmt t out = Some (out @ lines_by_depth fmt (m_Root t))"
    by (rule LevelByLevel_eq)
  have 2: "m_Root t = nullptr \<longrightarrow> LevelByLevel fmt t out = Some out"
    by (simp add: LevelByLevel_def)
  have root: "m_Root ?t =
      BinaryNode (5, v5)
        (BinaryNode (3, v3) (BinaryNode (1, v1) nullptr nullptr)
                            (BinaryNode (4, v4) nullptr nullptr))
        (BinaryNode (8, v8) (BinaryNode (7, v7) nullptr nullptr)
                            (BinaryNode (9, v9) nullptr nullptr))"
    by (simp add: Insert_def BinarySearchTree_default_def)
  have up: "[0 ..< 3] = [0, Suc 0, Suc (Suc 0)]" by (simp add: upt_rec)
  have "lines_by_depth fmt' (m_Root ?t) =
      fmt' v5 @ '' '' @ [CHR 0x0A]
      @ fmt' v3 @ '' '' @ fmt' v8 @ '' '' @ [CHR 0x0A]
      @ fmt' v1 @ '' '' @ fmt' v4 @ '' '' @ fmt' v7 @ '' '' @ fmt' v9 @ '' '' @ [CHR 0x0A]"
    unfolding root by (simp add: lines_by_depth_def level_line_def up)
  then have 3: "LevelByLevel fmt' ?t out' =
      Some (out' @ fmt' v5 @ '' '' @ [CHR 0x0A]
              @ fmt' v3 @ '' '' @ fmt' v8 @ '' '' @ [CHR 0x0A]
              @ fmt' v1 @ '' '' @ fmt' v4 @ '' '' @ fmt' v7 @ '' '' @ fmt' v9 @ '' ''
              @ [CHR 0x0A])"
    by (simp add: LevelByLevel_eq)
  from 1 2 3 show ?thesis by blast
qed

theorem LevelByLevel_output_witness:
  "m_Root (BinarySearchTree_default :: (int, string) BinarySearchTree) = nullptr
   \<and> LevelByLevel id (BinarySearchTree_default :: (int, string) BinarySearchTree) ''log: ''
       = Some ''log: ''
   \<and> LevelByLevel id example_tree []
       = Some (''five '' @ [CHR 0x0A] @ ''three eight '' @ [CHR 0x0A]
               @ ''one four seven nine '' @ [CHR 0x0A])"
proof -
  have up: "[0 ..< 3] = [0, Suc 0, Suc (Suc 0)]" by (simp add: upt_rec)
  have l: "lines_by_depth id (m_Root example_tree) =
      ''five '' @ [CHR 0x0A] @ ''three eight '' @ [CHR 0x0A]
      @ ''one four seven nine '' @ [CHR 0x0A]"
    by (simp add: example_tree_eq lines_by_depth_def level_line_def up)
  have e: "m_Root (BinarySearchTree_default :: (int, string) BinarySearchTree) = nullptr"
    by (simp add: BinarySearchTree_default_def)
  note a = LevelByLevel_output [of id "BinarySearchTree_default :: (int, string) BinarySearchTree"
      "''log: ''", THEN conjunct2, THEN conjunct1]
  note b = LevelByLevel_output [of id example_tree "[]", THEN conjunct1]
  from a b e l show ?thesis by simp
qed

section \<open>What a failed allocation leaves behind\<close>




section \<open>Contains needs no precondition\<close>

text \<open>
  Claim C10. \<^verbatim>\<open>Contains\<close> compares the pointer that the private \<^verbatim>\<open>Find\<close> returns with
  \<^verbatim>\<open>nullptr\<close> and dereferences nothing: it is false on the empty tree and whenever no
  node has the key, and in an ordered tree it is true exactly for the keys of the tree.
  On the same inputs the public \<^verbatim>\<open>Find\<close> dereferences a null pointer, as \<^verbatim>\<open>Root\<close>,
  \<^verbatim>\<open>Min\<close> and \<^verbatim>\<open>Max\<close> do on the empty tree.
\<close>

theorem Contains_total:
  "\<not> Contains k BinarySearchTree_default
   \<and> (k \<notin> key_set (m_Root t) \<longrightarrow> \<not> Contains k t)
   \<and> (bst_ordered (m_Root t) \<longrightarrow> Contains k t = (k \<in> key_set (m_Root t)))
   \<and> (\<not> Contains k t \<longrightarrow> Find k t = None)
   \<and> Find k BinarySearchTree_default = None
   \<and> Root BinarySearchTree_default = None
   \<and> Min_bst BinarySearchTree_default = None
   \<and> Max_bst BinarySearchTree_default = None"
  by (simp add: Contains_iff_Find [symmetric] Contains_def Find_node_absent Find_node_iff
      Find_def Root_def Min_bst_def Max_bst_def BinarySearchTree_default_def)

theorem Contains_total_witness:
  "(6::int) \<notin> key_set (m_Root example_tree) \<and> bst_ordered (m_Root example_tree)
   \<and> \<not> Contains 6 example_tree \<and> Find 6 example_tree = None"
proof -
  have k: "(6::int) \<notin> key_set (m_Root example_tree)" by (simp add: example_tree_eq)
  from Contains_total [of 6 example_tree] k bst_ordered_example_tree
  show ?thesis by blast
qed

end
